theory Spec2Isabelle
  imports Main "HOL-Library.Word" "HOL-Library.Char_ord" "HOL-Library.List_Lexorder"
    "HOL-Library.Product_Lexorder" "HOL-Library.Multiset"
begin

section \<open>Go strings: bytes, runes and UTF-8\<close>

text \<open>
  A Go \<^verbatim>\<open>string\<close> is a sequence of bytes, so it is modelled by \<^typ>\<open>string\<close>
  (a list of 8-bit characters). A rune is a code point. The functions of this section are
  the ones of the Go standard library that \<^verbatim>\<open>internal/ingest\<close> calls
  (\<^verbatim>\<open>unicode/utf8\<close>, \<^verbatim>\<open>strings\<close>, \<^verbatim>\<open>unicode\<close>); they follow the library's
  documented behaviour on every byte sequence, ill-formed ones included: a byte that
  starts no well-formed UTF-8 sequence decodes to \<^verbatim>\<open>utf8.RuneError\<close> of width 1.
\<close>

type_synonym rune = nat

definition RuneError :: rune where
  "RuneError = 65533"

text \<open>A continuation byte: \<^verbatim>\<open>0x80 .. 0xBF\<close>.\<close>

definition cont :: "char \<Rightarrow> bool" where
  "cont c = (128 \<le> (of_char c :: nat) \<and> (of_char c :: nat) < 192)"

text \<open>
  The range accepted for the second byte after the lead byte \<open>x\<close>: \<^verbatim>\<open>E0\<close> excludes
  overlong forms, \<^verbatim>\<open>ED\<close> the surrogates, \<^verbatim>\<open>F0\<close> overlong forms and \<^verbatim>\<open>F4\<close> the
  values above \<^verbatim>\<open>U+10FFFF\<close>.
\<close>

definition second_ok :: "nat \<Rightarrow> char \<Rightarrow> bool" where
  "second_ok x c =
     (let y = (of_char c :: nat) in
      if x = 224 then 160 \<le> y \<and> y < 192
      else if x = 237 then 128 \<le> y \<and> y < 160
      else if x = 240 then 144 \<le> y \<and> y < 192
      else if x = 244 then 128 \<le> y \<and> y < 144
      else 128 \<le> y \<and> y < 192)"

fun decode2 :: "nat \<Rightarrow> string \<Rightarrow> rune \<times> nat" where
  "decode2 x (b1 # rest) =
     (if cont b1 then ((x - 192) * 64 + (of_char b1 - 128), 2) else (RuneError, 1))"
| "decode2 x rest = (RuneError, 1)"

fun decode3 :: "nat \<Rightarrow> string \<Rightarrow> rune \<times> nat" where
  "decode3 x (b1 # b2 # rest) =
     (if second_ok x b1 \<and> cont b2
      then ((x - 224) * 4096 + (of_char b1 - 128) * 64 + (of_char b2 - 128), 3)
      else (RuneError, 1))"
| "decode3 x [b1] = (RuneError, 1)"
| "decode3 x [] = (RuneError, 1)"

fun decode4 :: "nat \<Rightarrow> string \<Rightarrow> rune \<times> nat" where
  "decode4 x (b1 # b2 # b3 # rest) =
     (if second_ok x b1 \<and> cont b2 \<and> cont b3
      then ((x - 240) * 262144 + (of_char b1 - 128) * 4096
             + (of_char b2 - 128) * 64 + (of_char b3 - 128), 4)
      else (RuneError, 1))"
| "decode4 x [b1, b2] = (RuneError, 1)"
| "decode4 x [b1] = (RuneError, 1)"
| "decode4 x [] = (RuneError, 1)"

text \<open>\<^verbatim>\<open>utf8.DecodeRuneInString\<close>: the first rune of \<open>s\<close> and its width in bytes.\<close>

definition DecodeRuneInString :: "string \<Rightarrow> rune \<times> nat" where
  "DecodeRuneInString s =
     (case s of
        [] \<Rightarrow> (RuneError, 0)
      | b0 # rest \<Rightarrow>
          (let x = (of_char b0 :: nat) in
           if x < 128 then (x, 1)
           else if 194 \<le> x \<and> x < 224 then decode2 x rest
           else if 224 \<le> x \<and> x < 240 then decode3 x rest
           else if 240 \<le> x \<and> x < 245 then decode4 x rest
           else (RuneError, 1)))"

text \<open>
  \<^verbatim>\<open>utf8.AppendRune\<close>, which \<^verbatim>\<open>string(runes)\<close> applies to every rune: a surrogate
  or a value above \<^verbatim>\<open>U+10FFFF\<close> is written as \<^verbatim>\<open>U+FFFD\<close>.
\<close>

definition EncodeRune :: "rune \<Rightarrow> string" where
  "EncodeRune r =
     (if r < 128 then [char_of r]
      else if r < 2048 then [char_of (192 + r div 64), char_of (128 + r mod 64)]
      else if 1114111 < r \<or> (55296 \<le> r \<and> r \<le> 57343) then
        [char_of (239::nat), char_of (191::nat), char_of (189::nat)]
      else if r < 65536 then
        [char_of (224 + r div 4096), char_of (128 + (r div 64) mod 64), char_of (128 + r mod 64)]
      else
        [char_of (240 + r div 262144), char_of (128 + (r div 4096) mod 64),
         char_of (128 + (r div 64) mod 64), char_of (128 + r mod 64)])"

text \<open>A Unicode scalar value: a code point that is no surrogate.\<close>

definition scalar :: "rune \<Rightarrow> bool" where
  "scalar r = (r \<le> 1114111 \<and> \<not> (55296 \<le> r \<and> r \<le> 57343))"

lemma decode2_size:
  "snd (decode2 x rest) = 1 \<or> (snd (decode2 x rest) = 2 \<and> 1 \<le> length rest)"
  by (cases "(x, rest)" rule: decode2.cases) simp_all

lemma decode3_size:
  "snd (decode3 x rest) = 1 \<or> (snd (decode3 x rest) = 3 \<and> 2 \<le> length rest)"
  by (cases "(x, rest)" rule: decode3.cases) simp_all

lemma decode4_size:
  "snd (decode4 x rest) = 1 \<or> (snd (decode4 x rest) = 4 \<and> 3 \<le> length rest)"
  by (cases "(x, rest)" rule: decode4.cases) simp_all

lemma DecodeRune_size:
  "s \<noteq> [] \<Longrightarrow> 0 < snd (DecodeRuneInString s) \<and> snd (DecodeRuneInString s) \<le> length s"
proof (cases s)
  case Nil
  assume "s \<noteq> []"
  with Nil show ?thesis by simp
next
  case (Cons b0 rest)
  show ?thesis
    using decode2_size [of "of_char b0" rest] decode3_size [of "of_char b0" rest]
      decode4_size [of "of_char b0" rest]
    unfolding Cons DecodeRuneInString_def by (simp add: Let_def) linarith
qed

text \<open>
  The string cut into its runes, each with the bytes it was read from: the loop
  \<^verbatim>\<open>for len(s) > 0 { r, n := utf8.DecodeRuneInString(s); ...; s = s[n:] }\<close>.
\<close>

function decode :: "string \<Rightarrow> (rune \<times> string) list" where
  "decode s =
     (if s = [] then []
      else (fst (DecodeRuneInString s), take (snd (DecodeRuneInString s)) s)
             # decode (drop (snd (DecodeRuneInString s)) s))"
  by pat_completeness auto
termination
  by (relation "measure length") (use DecodeRune_size in auto)

declare decode.simps [simp del]

text \<open>\<^verbatim>\<open>[]rune(s)\<close>, \<^verbatim>\<open>utf8.RuneCountInString\<close>, \<^verbatim>\<open>string(runes)\<close> and \<^verbatim>\<open>utf8.ValidString\<close>.\<close>

definition runes_of :: "string \<Rightarrow> rune list" where
  "runes_of s = map fst (decode s)"

definition RuneCountInString :: "string \<Rightarrow> nat" where
  "RuneCountInString s = length (decode s)"

definition string_of_runes :: "rune list \<Rightarrow> string" where
  "string_of_runes rs = concat (map EncodeRune rs)"

definition ValidString :: "string \<Rightarrow> bool" where
  "ValidString s = list_all (\<lambda>c. \<not> (fst c = RuneError \<and> length (snd c) = 1)) (decode s)"

text \<open>\<^verbatim>\<open>unicode.IsSpace\<close>: the code points with the Unicode White_Space property.\<close>

definition isSpace :: "rune \<Rightarrow> bool" where
  "isSpace r =
     (r = 9 \<or> r = 10 \<or> r = 11 \<or> r = 12 \<or> r = 13 \<or> r = 32 \<or> r = 133 \<or> r = 160
      \<or> r = 5760 \<or> (8192 \<le> r \<and> r \<le> 8202) \<or> r = 8232 \<or> r = 8233 \<or> r = 8239
      \<or> r = 8287 \<or> r = 12288)"

definition trim_both :: "('a \<Rightarrow> bool) \<Rightarrow> 'a list \<Rightarrow> 'a list" where
  "trim_both P xs = rev (dropWhile P (rev (dropWhile P xs)))"

text \<open>
  \<^verbatim>\<open>strings.TrimSpace\<close>: the slice of \<open>s\<close> without its leading and trailing white-space
  runes.
\<close>

definition TrimSpace :: "string \<Rightarrow> string" where
  "TrimSpace s = concat (map snd (trim_both (\<lambda>c. isSpace (fst c)) (decode s)))"

text \<open>
  \<^verbatim>\<open>unicode.ToLower\<close> maps \<^verbatim>\<open>A .. Z\<close> to \<^verbatim>\<open>a .. z\<close> and leaves the other ASCII
  code points alone; above ASCII it reads the Unicode case tables, which are the
  parameter \<open>tbl\<close>. \<^verbatim>\<open>strings.ToLower\<close> maps it over the runes of the string
  (\<^verbatim>\<open>strings.Map\<close>), so an ill-formed byte comes out as the encoding of \<^verbatim>\<open>U+FFFD\<close>.
\<close>

definition unicode_ToLower :: "(rune \<Rightarrow> rune) \<Rightarrow> rune \<Rightarrow> rune" where
  "unicode_ToLower tbl r =
     (if r < 128 then (if 65 \<le> r \<and> r \<le> 90 then r + 32 else r) else tbl r)"

definition ToLower :: "(rune \<Rightarrow> rune) \<Rightarrow> string \<Rightarrow> string" where
  "ToLower tbl s = string_of_runes (map (unicode_ToLower tbl) (runes_of s))"

subsection \<open>Decoding inverts encoding\<close>

lemma split64: "(r::nat) = (r div 64) * 64 + r mod 64"
  by simp

lemma div4096: "(r::nat) div 4096 = (r div 64) div 64"
  by (simp add: div_mult2_eq)

lemma div262144: "(r::nat) div 262144 = ((r div 64) div 64) div 64"
  by (simp add: div_mult2_eq)

lemma roundtrip1:
  assumes "r < 128"
  shows "DecodeRuneInString (EncodeRune r @ rest) = (r, length (EncodeRune r))"
  using assms by (simp add: EncodeRune_def DecodeRuneInString_def)

lemma roundtrip2:
  assumes "128 \<le> r" "r < 2048"
  shows "DecodeRuneInString (EncodeRune r @ rest) = (r, length (EncodeRune r))"
proof -
  define q where "q = r div 64"
  define m where "m = r mod 64"
  have r: "r = q * 64 + m" and m: "m < 64" and q: "2 \<le> q" "q < 32"
    using assms by (auto simp: q_def m_def)
  have e: "EncodeRune r = [char_of (192 + q), char_of (128 + m)]"
    using assms by (simp add: EncodeRune_def q_def m_def)
  have b0: "(of_char (char_of (192 + q)) :: nat) = 192 + q" using q by simp
  have b1: "(of_char (char_of (128 + m)) :: nat) = 128 + m" using m by simp
  show ?thesis
    unfolding e using q m by (simp add: DecodeRuneInString_def b0 b1 cont_def r)
qed

lemma roundtrip3:
  assumes "2048 \<le> r" "r < 65536" "\<not> (55296 \<le> r \<and> r \<le> 57343)"
  shows "DecodeRuneInString (EncodeRune r @ rest) = (r, length (EncodeRune r))"
proof -
  define a where "a = r div 64"
  define q where "q = a div 64"
  define p where "p = a mod 64"
  define m where "m = r mod 64"
  have ra: "r = a * 64 + m" and aq: "a = q * 64 + p" and m: "m < 64" and p: "p < 64"
    by (simp_all add: a_def q_def m_def p_def)
  have r: "r = q * 4096 + p * 64 + m" using ra aq by simp
  have q: "q < 16" using assms r by simp
  have e: "EncodeRune r = [char_of (224 + q), char_of (128 + p), char_of (128 + m)]"
    using assms by (auto simp add: EncodeRune_def q_def m_def p_def a_def div4096)
  have b0: "(of_char (char_of (224 + q)) :: nat) = 224 + q" using q by simp
  have b1: "(of_char (char_of (128 + p)) :: nat) = 128 + p" using p by simp
  have b2: "(of_char (char_of (128 + m)) :: nat) = 128 + m" using m by simp
  have s0: "q = 0 \<Longrightarrow> 32 \<le> p" using assms r m by linarith
  have s13: "q = 13 \<Longrightarrow> p < 32" using assms r m p by linarith
  show ?thesis
    unfolding e using q m p s0 s13
    by (simp add: DecodeRuneInString_def b0 b1 b2 cont_def second_ok_def r)
qed

lemma roundtrip4:
  assumes "65536 \<le> r" "r \<le> 1114111"
  shows "DecodeRuneInString (EncodeRune r @ rest) = (r, length (EncodeRune r))"
proof -
  define a where "a = r div 64"
  define b where "b = a div 64"
  define q where "q = b div 64"
  define u where "u = b mod 64"
  define p where "p = a mod 64"
  define m where "m = r mod 64"
  have ra: "r = a * 64 + m" and ab: "a = b * 64 + p" and bq: "b = q * 64 + u"
    and m: "m < 64" and p: "p < 64" and u: "u < 64"
    by (simp_all add: a_def b_def q_def m_def p_def u_def)
  have r: "r = q * 262144 + u * 4096 + p * 64 + m" using ra ab bq by simp
  have q: "q < 5" using assms r by simp
  have e: "EncodeRune r =
      [char_of (240 + q), char_of (128 + u), char_of (128 + p), char_of (128 + m)]"
    using assms
    by (auto simp add: EncodeRune_def q_def m_def p_def u_def a_def b_def div4096 div262144)
  have b0: "(of_char (char_of (240 + q)) :: nat) = 240 + q" using q by simp
  have b1: "(of_char (char_of (128 + u)) :: nat) = 128 + u" using u by simp
  have b2: "(of_char (char_of (128 + p)) :: nat) = 128 + p" using p by simp
  have b3: "(of_char (char_of (128 + m)) :: nat) = 128 + m" using m by simp
  have s0: "q = 0 \<Longrightarrow> 16 \<le> u" using assms r m p by linarith
  have s4: "q = 4 \<Longrightarrow> u < 16" using assms r m p by linarith
  show ?thesis
    unfolding e using q m p u s0 s4
    by (simp add: DecodeRuneInString_def b0 b1 b2 b3 cont_def second_ok_def r)
qed

lemma DecodeRune_Encode:
  "scalar r \<Longrightarrow> DecodeRuneInString (EncodeRune r @ rest) = (r, length (EncodeRune r))"
  using roundtrip1 [of r rest] roundtrip2 [of r rest] roundtrip3 [of r rest] roundtrip4 [of r rest]
  unfolding scalar_def by linarith

subsection \<open>Cutting a string into runes\<close>

lemma decode_Nil [simp]: "decode [] = []"
  by (simp add: decode.simps)

lemma decode_nonempty:
  "s \<noteq> [] \<Longrightarrow> decode s =
     (fst (DecodeRuneInString s), take (snd (DecodeRuneInString s)) s)
       # decode (drop (snd (DecodeRuneInString s)) s)"
  by (subst decode.simps) simp

lemma concat_decode: "concat (map snd (decode s)) = s"
proof (induction s rule: decode.induct)
  case (1 s)
  show ?case
  proof (cases "s = []")
    case True
    then show ?thesis by simp
  next
    case False
    with 1 show ?thesis by (simp add: decode_nonempty)
  qed
qed

lemma second_ok_cont: "second_ok x c \<Longrightarrow> cont c"
  by (auto simp: second_ok_def cont_def Let_def split: if_splits)

lemma decode2_append:
  "t = [] \<or> \<not> cont (hd t) \<Longrightarrow> decode2 x (rest @ t) = decode2 x rest"
  by (cases rest; cases t) auto

lemma decode3_append:
  "t = [] \<or> \<not> cont (hd t) \<Longrightarrow> decode3 x (rest @ t) = decode3 x rest"
proof (cases "(x, rest)" rule: decode3.cases)
  case (1 x b1 b2 rest')
  then show ?thesis by simp
next
  case (2 x b1)
  assume "t = [] \<or> \<not> cont (hd t)"
  with 2 show ?thesis by (cases t) auto
next
  case (3 x)
  assume "t = [] \<or> \<not> cont (hd t)"
  with 3 show ?thesis
    by (cases "(x, t)" rule: decode3.cases) (auto dest: second_ok_cont)
qed

lemma decode4_append:
  "t = [] \<or> \<not> cont (hd t) \<Longrightarrow> decode4 x (rest @ t) = decode4 x rest"
proof (cases "(x, rest)" rule: decode4.cases)
  case (1 x b1 b2 b3 rest')
  then show ?thesis by simp
next
  case (2 x b1 b2)
  assume "t = [] \<or> \<not> cont (hd t)"
  with 2 show ?thesis by (cases t) auto
next
  case (3 x b1)
  assume "t = [] \<or> \<not> cont (hd t)"
  with 3 show ?thesis
    by (cases "(x, b1 # t)" rule: decode4.cases) auto
next
  case (4 x)
  assume "t = [] \<or> \<not> cont (hd t)"
  with 4 show ?thesis
    by (cases "(x, t)" rule: decode4.cases) (auto dest: second_ok_cont)
qed

lemma DecodeRune_append:
  assumes "s \<noteq> []" "t = [] \<or> \<not> cont (hd t)"
  shows "DecodeRuneInString (s @ t) = DecodeRuneInString s"
proof (cases s)
  case Nil
  with assms show ?thesis by simp
next
  case (Cons b0 rest)
  show ?thesis
    unfolding Cons DecodeRuneInString_def
    by (simp add: Let_def decode2_append [OF assms(2)] decode3_append [OF assms(2)]
        decode4_append [OF assms(2)])
qed

lemma decode_append:
  "t = [] \<or> \<not> cont (hd t) \<Longrightarrow> decode (s @ t) = decode s @ decode t"
proof (induction s rule: decode.induct)
  case (1 s)
  show ?case
  proof (cases "s = []")
    case True
    then show ?thesis by simp
  next
    case False
    have d: "DecodeRuneInString (s @ t) = DecodeRuneInString s"
      using False "1.prems" by (rule DecodeRune_append)
    have n: "snd (DecodeRuneInString s) \<le> length s"
      using DecodeRune_size [OF False] by simp
    have "decode (s @ t) =
        (fst (DecodeRuneInString s), take (snd (DecodeRuneInString s)) s)
          # decode (drop (snd (DecodeRuneInString s)) s @ t)"
      using False n by (subst decode_nonempty) (simp_all add: d)
    also have "decode (drop (snd (DecodeRuneInString s)) s @ t)
        = decode (drop (snd (DecodeRuneInString s)) s) @ decode t"
      using "1.IH" [OF False "1.prems"] .
    finally show ?thesis
      using False by (simp add: decode_nonempty [of s])
  qed
qed

lemma decode_Encode:
  assumes "scalar r"
  shows "decode (EncodeRune r @ rest) = (r, EncodeRune r) # decode rest"
proof -
  have ne: "EncodeRune r @ rest \<noteq> []"
    by (simp add: EncodeRune_def)
  show ?thesis
    by (subst decode_nonempty [OF ne]) (simp add: DecodeRune_Encode [OF assms])
qed

lemma decode_string_of_runes:
  "list_all scalar rs \<Longrightarrow>
     decode (string_of_runes rs @ rest) = map (\<lambda>r. (r, EncodeRune r)) rs @ decode rest"
  by (induction rs) (simp_all add: string_of_runes_def decode_Encode)


lemma decode2_scalar: "194 \<le> x \<Longrightarrow> x < 224 \<Longrightarrow> scalar (fst (decode2 x rest))"
  by (cases "(x, rest)" rule: decode2.cases)
    (auto simp: scalar_def RuneError_def cont_def)

lemma decode3_scalar: "224 \<le> x \<Longrightarrow> x < 240 \<Longrightarrow> scalar (fst (decode3 x rest))"
  by (cases "(x, rest)" rule: decode3.cases)
    (auto simp: scalar_def RuneError_def cont_def second_ok_def Let_def split: if_splits)

lemma decode4_scalar: "240 \<le> x \<Longrightarrow> x < 245 \<Longrightarrow> scalar (fst (decode4 x rest))"
  by (cases "(x, rest)" rule: decode4.cases)
    (auto simp: scalar_def RuneError_def cont_def second_ok_def Let_def split: if_splits)

lemma DecodeRune_scalar: "scalar (fst (DecodeRuneInString s))"
proof (cases s)
  case Nil
  then show ?thesis by (simp add: DecodeRuneInString_def scalar_def RuneError_def)
next
  case (Cons b0 rest)
  show ?thesis
    unfolding Cons DecodeRuneInString_def
    by (simp add: Let_def decode2_scalar decode3_scalar decode4_scalar)
      (simp add: scalar_def RuneError_def)
qed

lemma decode_scalar: "c \<in> set (decode s) \<Longrightarrow> scalar (fst c)"
proof (induction s rule: decode.induct)
  case (1 s)
  show ?case
  proof (cases "s = []")
    case True
    with "1.prems" show ?thesis by simp
  next
    case False
    with 1 show ?thesis
      by (auto simp: decode_nonempty [OF False] DecodeRune_scalar)
  qed
qed

lemma DecodeRune_lead:
  assumes "fst (DecodeRuneInString (b0 # rest)) \<noteq> RuneError"
  shows "\<not> cont b0"
proof
  assume c: "cont b0"
  then have "DecodeRuneInString (b0 # rest) = (RuneError, 1)"
    by (simp add: DecodeRuneInString_def cont_def Let_def)
  with assms show False by simp
qed

lemma decode_chunk_lead:
  "c \<in> set (decode s) \<Longrightarrow> fst c \<noteq> RuneError \<Longrightarrow> snd c \<noteq> [] \<and> \<not> cont (hd (snd c))"
proof (induction s rule: decode.induct)
  case (1 s)
  show ?case
  proof (cases "s = []")
    case True
    with "1.prems" show ?thesis by simp
  next
    case False
    then obtain b0 rest where s: "s = b0 # rest" by (cases s) auto
    have n: "0 < snd (DecodeRuneInString s)" using DecodeRune_size [OF False] by simp
    consider "c = (fst (DecodeRuneInString s), take (snd (DecodeRuneInString s)) s)"
      | "c \<in> set (decode (drop (snd (DecodeRuneInString s)) s))"
      using "1.prems"(1) by (auto simp: decode_nonempty [OF False])
    then show ?thesis
    proof cases
      case 1
      then have "fst (DecodeRuneInString (b0 # rest)) \<noteq> RuneError"
        using "1.prems"(2) s by simp
      then have "\<not> cont b0" by (rule DecodeRune_lead)
      moreover have "take (snd (DecodeRuneInString s)) s = b0 # take (snd (DecodeRuneInString s) - 1) rest"
        using n s by (cases "snd (DecodeRuneInString s)") auto
      ultimately show ?thesis using 1 by simp
    next
      case 2
      then show ?thesis using "1.IH" [OF False] "1.prems"(2) by blast
    qed
  qed
qed

lemma decode_suffix:
  "decode s = cs1 @ cs2 \<Longrightarrow> decode (concat (map snd cs2)) = cs2"
proof (induction cs1 arbitrary: s)
  case Nil
  then show ?case using concat_decode [of s] by simp
next
  case (Cons c cs1)
  then have ne: "s \<noteq> []" by auto
  from Cons.prems have "decode (drop (snd (DecodeRuneInString s)) s) = cs1 @ cs2"
    by (simp add: decode_nonempty [OF ne])
  then show ?case by (rule Cons.IH)
qed

lemma decode_prefix:
  assumes "decode s = cs1 @ cs2" "\<forall>c\<in>set cs2. fst c \<noteq> RuneError"
  shows "decode (concat (map snd cs1)) = cs1"
proof (cases cs2)
  case Nil
  with assms(1) show ?thesis using concat_decode [of s] by simp
next
  case (Cons c cs2')
  define s1 where "s1 = concat (map snd cs1)"
  define s2 where "s2 = concat (map snd cs2)"
  have s: "s = s1 @ s2"
    using concat_decode [of s] assms(1) by (simp add: s1_def s2_def)
  have d2: "decode s2 = cs2"
    unfolding s2_def using assms(1) by (rule decode_suffix)
  have "c \<in> set (decode s)" using assms(1) Cons by simp
  moreover have "fst c \<noteq> RuneError" using assms(2) Cons by simp
  ultimately have "snd c \<noteq> [] \<and> \<not> cont (hd (snd c))" by (rule decode_chunk_lead)
  then have "\<not> cont (hd s2)" by (simp add: s2_def Cons)
  then have "decode (s1 @ s2) = decode s1 @ decode s2"
    by (intro decode_append) simp
  with s d2 assms(1) have "decode s1 @ cs2 = cs1 @ cs2" by simp
  then show ?thesis by (simp add: s1_def)
qed


lemma trim_both_split:
  "\<exists>pre post. xs = pre @ trim_both P xs @ post \<and> (\<forall>x\<in>set pre. P x) \<and> (\<forall>x\<in>set post. P x)"
proof -
  define ys where "ys = dropWhile P xs"
  have 1: "xs = takeWhile P xs @ ys" by (simp add: ys_def)
  have 2: "rev ys = takeWhile P (rev ys) @ dropWhile P (rev ys)" by simp
  have "ys = rev (dropWhile P (rev ys)) @ rev (takeWhile P (rev ys))"
    by (metis rev_append rev_rev_ident takeWhile_dropWhile_id)
  then have 3: "ys = trim_both P xs @ rev (takeWhile P (rev ys))"
    by (simp add: trim_both_def ys_def)
  have 4: "\<forall>x\<in>set (takeWhile P xs). P x" by (auto dest: set_takeWhileD)
  have 5: "\<forall>x\<in>set (rev (takeWhile P (rev ys))). P x" by (auto dest: set_takeWhileD)
  show ?thesis using 1 3 4 5 by (metis append_assoc)
qed

lemma isSpace_not_RuneError: "isSpace r \<Longrightarrow> r \<noteq> RuneError"
  by (auto simp: isSpace_def RuneError_def)

lemma decode_TrimSpace:
  "decode (TrimSpace s) = trim_both (\<lambda>c. isSpace (fst c)) (decode s)"
proof -
  let ?P = "\<lambda>c. isSpace (fst c)"
  obtain pre post where
    sp: "decode s = pre @ trim_both ?P (decode s) @ post" and post: "\<forall>x\<in>set post. ?P x"
    using trim_both_split [of "decode s" ?P] by blast
  have a: "decode (concat (map snd (trim_both ?P (decode s) @ post))) = trim_both ?P (decode s) @ post"
    using sp by (rule decode_suffix)
  have "\<forall>c\<in>set post. fst c \<noteq> RuneError"
    using post isSpace_not_RuneError by blast
  with a have "decode (concat (map snd (trim_both ?P (decode s)))) = trim_both ?P (decode s)"
    by (rule decode_prefix)
  then show ?thesis by (simp add: TrimSpace_def)
qed

lemma trim_both_subset: "set (trim_both P xs) \<subseteq> set xs"
  unfolding trim_both_def by (auto dest!: set_dropWhileD)

lemma ValidString_TrimSpace: "ValidString s \<Longrightarrow> ValidString (TrimSpace s)"
  unfolding ValidString_def decode_TrimSpace list_all_iff
  using trim_both_subset by fastforce



section \<open>Ingestion: validation and fingerprints (\<^verbatim>\<open>internal/ingest\<close>)\<close>

text \<open>
  What \<^verbatim>\<open>internal/ingest\<close> takes from outside the repository is a parameter of the
  model: SHA-256 (\<^verbatim>\<open>crypto/sha256\<close>, a digest of 256 bits whatever the message), the
  Unicode case tables above ASCII, and the two URL parsers of \<^verbatim>\<open>net/url\<close>:
  whether \<^verbatim>\<open>url.ParseRequestURI\<close> accepts a string, and the \<^verbatim>\<open>Path\<close> of the URL that
  \<^verbatim>\<open>url.Parse\<close> returns, \<open>None\<close> when it returns an error.
\<close>

record golib =
  sha256_Sum :: "string \<Rightarrow> 256 word"
  unicode_lower_table :: "rune \<Rightarrow> rune"
  url_ParseRequestURI :: "string \<Rightarrow> bool"
  url_Parse_Path :: "string \<Rightarrow> string option"

datatype ingest_error =
  ErrEmptyBatch | ErrBatchTooLarge | ErrMissingType | ErrInvalidType
  | ErrMissingURL | ErrInvalidURL | ErrMissingSession

definition maxBatchSize :: nat where
  "maxBatchSize = 100"

definition maxTextLength :: nat where
  "maxTextLength = 500"

definition validEventTypes :: "string \<Rightarrow> bool" where
  "validEventTypes t =
     (t \<in> set [''click'', ''pageview'', ''input'', ''submit'', ''custom'', ''error''])"

text \<open>\<^verbatim>\<open>truncate(s, maxLen)\<close> of \<^verbatim>\<open>validate.go\<close>.\<close>

definition truncate_str :: "string \<Rightarrow> nat \<Rightarrow> string" where
  "truncate_str s maxLen =
     (let s' = TrimSpace s in
      if RuneCountInString s' \<le> maxLen then s'
      else string_of_runes (take maxLen (runes_of s')))"

record IngestEvent =
  EventType :: string
  ElementTag :: string
  ElementID :: string
  ElementClasses :: string
  ElementText :: string
  AriaLabel :: string
  DataAttributes :: "(string \<times> string) list"
  ParentPath :: string
  URL :: string
  URLPath :: string
  PageTitle :: string
  Referrer :: string
  ScreenWidth :: int
  ScreenHeight :: int
  Timestamp :: int
  Properties :: "(string \<times> string) list"

record IngestPayload =
  Events :: "IngestEvent list"
  SessionID :: string
  DistinctID :: string

text \<open>
  \<^verbatim>\<open>validateEvent\<close> writes to the event it is given only after its four checks, so the
  model returns the rewritten event on success and the error otherwise.
\<close>

definition validateEvent :: "golib \<Rightarrow> IngestEvent \<Rightarrow> ingest_error + IngestEvent" where
  "validateEvent L e =
     (if EventType e = [] then Inl ErrMissingType
      else if \<not> validEventTypes (EventType e) then Inl ErrInvalidType
      else if URL e = [] then Inl ErrMissingURL
      else if \<not> url_ParseRequestURI L (URL e) then Inl ErrInvalidURL
      else
        (let e1 = e\<lparr>ElementText := truncate_str (ElementText e) maxTextLength\<rparr>;
             e2 = e1\<lparr>AriaLabel := truncate_str (AriaLabel e1) maxTextLength\<rparr>;
             e3 = e2\<lparr>PageTitle := truncate_str (PageTitle e2) maxTextLength\<rparr>;
             e4 = e3\<lparr>ParentPath := truncate_str (ParentPath e3) 1000\<rparr>
         in Inr (if URLPath e4 = []
                 then (case url_Parse_Path L (URL e4) of
                         Some p \<Rightarrow> e4\<lparr>URLPath := p\<rparr>
                       | None \<Rightarrow> e4)
                 else e4)))"

text \<open>
  The loop of \<^verbatim>\<open>ValidatePayload\<close> over \<^verbatim>\<open>p.Events\<close>. It rewrites the events in
  place and stops at the first error, so the result holds the error, if any, and the
  events as the loop leaves them.
\<close>

fun validateEvents :: "golib \<Rightarrow> IngestEvent list \<Rightarrow> ingest_error option \<times> IngestEvent list" where
  "validateEvents L [] = (None, [])"
| "validateEvents L (e # es) =
     (case validateEvent L e of
        Inl err \<Rightarrow> (Some err, e # es)
      | Inr e' \<Rightarrow> (case validateEvents L es of (r, es') \<Rightarrow> (r, e' # es')))"

definition ValidatePayload :: "golib \<Rightarrow> IngestPayload \<Rightarrow> ingest_error option \<times> IngestPayload" where
  "ValidatePayload L p =
     (if length (Events p) = 0 then (Some ErrEmptyBatch, p)
      else if length (Events p) > maxBatchSize then (Some ErrBatchTooLarge, p)
      else if SessionID p = [] then (Some ErrMissingSession, p)
      else (case validateEvents L (Events p) of (r, es') \<Rightarrow> (r, p\<lparr>Events := es'\<rparr>)))"

text \<open>
  \<^verbatim>\<open>hex.EncodeToString\<close> over the 32 bytes of the digest, most significant first.
\<close>

definition hextable :: string where
  "hextable = ''0123456789abcdef''"

definition digest_bytes :: "256 word \<Rightarrow> string" where
  "digest_bytes w = map (\<lambda>i. char_of (unat (drop_bit (8 * (31 - i)) w))) [0..<32]"

definition hex_EncodeToString :: "string \<Rightarrow> string" where
  "hex_EncodeToString bs =
     concat (map (\<lambda>b. [hextable ! ((of_char b :: nat) div 16), hextable ! ((of_char b :: nat) mod 16)]) bs)"

text \<open>
  The hash state of \<^verbatim>\<open>ComputeFingerprint\<close>: what \<^verbatim>\<open>h.Write\<close> has been given so far.
  \<^verbatim>\<open>write_parts\<close> is its loop over \<^verbatim>\<open>parts\<close>, \<open>i\<close> the index of the next part.
\<close>

fun write_parts :: "nat \<Rightarrow> string list \<Rightarrow> string \<Rightarrow> string" where
  "write_parts i [] h = h"
| "write_parts i (p # ps) h =
     write_parts (Suc i) ps ((if i > 0 then h @ ''|'' else h) @ p)"

definition ComputeFingerprint ::
  "golib \<Rightarrow> string \<Rightarrow> string \<Rightarrow> string \<Rightarrow> string \<Rightarrow> string \<Rightarrow> string" where
  "ComputeFingerprint L elementTag elementID elementClasses parentPath urlPath =
     (let parts =
            [ToLower (unicode_lower_table L) (TrimSpace elementTag),
             ToLower (unicode_lower_table L) (TrimSpace elementID),
             ToLower (unicode_lower_table L) (TrimSpace elementClasses),
             TrimSpace parentPath,
             TrimSpace urlPath];
          h = write_parts 0 parts []
      in take 16 (hex_EncodeToString (digest_bytes (sha256_Sum L h))))"


section \<open>The name cache (\<^verbatim>\<open>storage.SQLite\<close>, \<^verbatim>\<open>ai.Cache\<close>)\<close>

text \<open>
  Instants are integers (nanoseconds since the Unix epoch). A \<^verbatim>\<open>float64\<close> is only
  stored and read back, so it is kept as its 64 bits.
\<close>

type_synonym float64 = "64 word"

text \<open>The zero \<^verbatim>\<open>time.Time\<close>, January 1 of year 1, which \<^verbatim>\<open>IsZero\<close> recognises.\<close>

definition zeroTime :: int where
  "zeroTime = - 62135596800000000000"

definition IsZero :: "int \<Rightarrow> bool" where
  "IsZero t = (t = zeroTime)"

record EventName =
  en_Fingerprint :: string
  en_ProjectID :: string
  en_AIName :: string
  en_UserName :: "string option"
  en_SourceFile :: "string option"
  en_Confidence :: "float64 option"
  en_CreatedAt :: int

datatype sql_error = ErrNoRows | ErrDriver

text \<open>
  The table \<^verbatim>\<open>event_names\<close>, with its primary key \<^verbatim>\<open>(fingerprint, project_id)\<close>.
  \<open>db_failing\<close> stands for the database not answering: every statement then returns
  a driver error and changes nothing.
\<close>

record SQLite =
  event_names :: "string \<times> string \<rightharpoonup> EventName"
  db_failing :: bool

definition GetEventName :: "SQLite \<Rightarrow> string \<Rightarrow> string \<Rightarrow> sql_error + EventName" where
  "GetEventName s projectID fingerprint =
     (if db_failing s then Inl ErrDriver
      else case event_names s (fingerprint, projectID) of
             None \<Rightarrow> Inl ErrNoRows
           | Some en \<Rightarrow> Inr en)"

text \<open>
  \<^verbatim>\<open>INSERT ... ON CONFLICT (fingerprint, project_id) DO UPDATE SET ai_name, source_file,
  confidence\<close>: a new row has no \<^verbatim>\<open>user_name\<close> and the default \<^verbatim>\<open>created_at\<close>, the
  current time \<open>now\<close>.
\<close>

definition SetEventName :: "SQLite \<Rightarrow> int \<Rightarrow> EventName \<Rightarrow> sql_error option \<times> SQLite" where
  "SetEventName s now en =
     (if db_failing s then (Some ErrDriver, s)
      else
        (let k = (en_Fingerprint en, en_ProjectID en);
             row = (case event_names s k of
                      None \<Rightarrow>
                        \<lparr>en_Fingerprint = en_Fingerprint en, en_ProjectID = en_ProjectID en,
                         en_AIName = en_AIName en, en_UserName = None,
                         en_SourceFile = en_SourceFile en, en_Confidence = en_Confidence en,
                         en_CreatedAt = now\<rparr>
                    | Some old \<Rightarrow>
                        old\<lparr>en_AIName := en_AIName en, en_SourceFile := en_SourceFile en,
                            en_Confidence := en_Confidence en\<rparr>)
         in (None, s\<lparr>event_names := (event_names s)(k \<mapsto> row)\<rparr>)))"

text \<open>\<^verbatim>\<open>UPDATE event_names SET user_name = ? WHERE project_id = ? AND fingerprint = ?\<close>.\<close>

definition OverrideEventName ::
  "SQLite \<Rightarrow> string \<Rightarrow> string \<Rightarrow> string \<Rightarrow> sql_error option \<times> SQLite" where
  "OverrideEventName s projectID fingerprint userName =
     (if db_failing s then (Some ErrDriver, s)
      else case event_names s (fingerprint, projectID) of
             None \<Rightarrow> (None, s)
           | Some old \<Rightarrow>
               (None, s\<lparr>event_names :=
                  (event_names s)((fingerprint, projectID) \<mapsto> old\<lparr>en_UserName := Some userName\<rparr>)\<rparr>))"

record NamingResult =
  nr_Name :: string
  nr_Confidence :: float64
  nr_SourceFile :: string

definition Cache_Get :: "SQLite \<Rightarrow> string \<Rightarrow> string \<Rightarrow> string \<times> bool" where
  "Cache_Get meta projectID fingerprint =
     (case GetEventName meta projectID fingerprint of
        Inl err \<Rightarrow> ([], False)
      | Inr en \<Rightarrow>
          (if en_UserName en \<noteq> None \<and> the (en_UserName en) \<noteq> []
           then (the (en_UserName en), True)
           else (en_AIName en, True)))"

definition Cache_Set ::
  "SQLite \<Rightarrow> int \<Rightarrow> string \<Rightarrow> string \<Rightarrow> NamingResult \<Rightarrow> sql_error option \<times> SQLite" where
  "Cache_Set meta now projectID fingerprint result =
     SetEventName meta now
       \<lparr>en_Fingerprint = fingerprint, en_ProjectID = projectID, en_AIName = nr_Name result,
        en_UserName = None, en_SourceFile = Some (nr_SourceFile result),
        en_Confidence = Some (nr_Confidence result), en_CreatedAt = zeroTime\<rparr>"


section \<open>The event store (\<^verbatim>\<open>storage.DuckDB\<close>)\<close>

text \<open>
  A row of the table \<^verbatim>\<open>events\<close>. The column \<^verbatim>\<open>id\<close>, which the database draws at
  random and no function below reads, is left out.
\<close>

record Event =
  ev_ProjectID :: string
  ev_SessionID :: string
  ev_DistinctID :: string
  ev_EventType :: string
  ev_Fingerprint :: string
  ev_EventName :: "string option"
  ev_ElementTag :: string
  ev_ElementID :: string
  ev_ElementClasses :: string
  ev_ElementText :: string
  ev_AriaLabel :: string
  ev_DataAttributes :: "(string \<times> string) list"
  ev_ParentPath :: string
  ev_URL :: string
  ev_URLPath :: string
  ev_PageTitle :: string
  ev_Referrer :: string
  ev_ScreenWidth :: int
  ev_ScreenHeight :: int
  ev_UserAgent :: string
  ev_Timestamp :: int
  ev_ReceivedAt :: int
  ev_Properties :: "(string \<times> string) list"

record DuckDB =
  events :: "Event list"
  duck_failing :: bool

text \<open>
  \<^verbatim>\<open>InsertEvents\<close> runs in one transaction: every row is written, stamped with the
  time of the insertion, or none is.
\<close>

definition InsertEvents :: "DuckDB \<Rightarrow> int \<Rightarrow> Event list \<Rightarrow> sql_error option \<times> DuckDB" where
  "InsertEvents d now evs =
     (if duck_failing d then (Some ErrDriver, d)
      else (None, d\<lparr>events := events d @ map (\<lambda>e. e\<lparr>ev_ReceivedAt := now\<rparr>) evs\<rparr>))"

text \<open>
  \<^verbatim>\<open>UPDATE events SET event_name = ? WHERE project_id = ? AND fingerprint = ? AND
  event_name IS NULL\<close>.
\<close>

definition BackfillEventName ::
  "DuckDB \<Rightarrow> string \<Rightarrow> string \<Rightarrow> string \<Rightarrow> sql_error option \<times> DuckDB" where
  "BackfillEventName d projectID fingerprint name =
     (if duck_failing d then (Some ErrDriver, d)
      else (None, d\<lparr>events :=
              map (\<lambda>e. if ev_ProjectID e = projectID \<and> ev_Fingerprint e = fingerprint
                           \<and> ev_EventName e = None
                        then e\<lparr>ev_EventName := Some name\<rparr> else e) (events d)\<rparr>))"

section \<open>The naming engine (\<^verbatim>\<open>ai.Namer\<close>)\<close>

record NamingRequest =
  rq_ElementTag :: string
  rq_ElementID :: string
  rq_ElementClasses :: string
  rq_ElementText :: string
  rq_AriaLabel :: string
  rq_ParentPath :: string
  rq_URL :: string
  rq_URLPath :: string
  rq_PageTitle :: string
  rq_SourceCode :: string
  rq_SourceFile :: string

record NamingJob =
  job_ProjectID :: string
  job_Fingerprint :: string
  job_Request :: NamingRequest

text \<open>
  A provider answers \<^verbatim>\<open>GenerateEventName\<close> with a result or an error (\<open>None\<close>); a
  source matcher answers \<^verbatim>\<open>MatchAndFetch(projectID, elementID, elementClasses,
  parentPath)\<close> with the source code and file it found, if any. \<open>jobs\<close> is the buffer
  of the channel, of capacity 1000, oldest job first.
\<close>

type_synonym Provider = "NamingRequest \<Rightarrow> NamingResult option"

type_synonym SourceMatcher = "string \<Rightarrow> string \<Rightarrow> string \<Rightarrow> string \<Rightarrow> (string \<times> string) option"

record Namer =
  provider :: "Provider option"
  matcher :: "SourceMatcher option"
  jobs :: "NamingJob list"

definition jobs_capacity :: nat where
  "jobs_capacity = 1000"

definition Submit :: "Namer \<Rightarrow> SQLite \<Rightarrow> NamingJob \<Rightarrow> Namer" where
  "Submit n meta job =
     (if provider n = None then n
      else if snd (Cache_Get meta (job_ProjectID job) (job_Fingerprint job)) then n
      else if length (jobs n) < jobs_capacity then n\<lparr>jobs := jobs n @ [job]\<rparr>
      else n)"

text \<open>
  What one iteration of the worker's loop did with the job it received: every call of
  \<^verbatim>\<open>GenerateEventName\<close> is recorded with its request.
\<close>

datatype job_outcome =
  SkippedCached
  | SkippedNoProvider
  | ProviderFailed NamingRequest
  | CacheSetFailed NamingRequest
  | Named NamingRequest

fun provider_calls :: "job_outcome \<Rightarrow> NamingRequest list" where
  "provider_calls SkippedCached = []"
| "provider_calls SkippedNoProvider = []"
| "provider_calls (ProviderFailed rq) = [rq]"
| "provider_calls (CacheSetFailed rq) = [rq]"
| "provider_calls (Named rq) = [rq]"

text \<open>The body of the loop \<^verbatim>\<open>for job := range n.jobs\<close> of \<^verbatim>\<open>Namer.worker\<close>.\<close>

definition process_job ::
  "Namer \<Rightarrow> SQLite \<Rightarrow> DuckDB \<Rightarrow> int \<Rightarrow> NamingJob \<Rightarrow> job_outcome \<times> SQLite \<times> DuckDB" where
  "process_job n meta d now job =
     (if snd (Cache_Get meta (job_ProjectID job) (job_Fingerprint job)) then (SkippedCached, meta, d)
      else case provider n of
        None \<Rightarrow> (SkippedNoProvider, meta, d)
      | Some prov \<Rightarrow>
          (let req = job_Request job;
               req' = (case matcher n of
                         None \<Rightarrow> req
                       | Some m \<Rightarrow>
                           (case m (job_ProjectID job) (rq_ElementID req) (rq_ElementClasses req)
                                   (rq_ParentPath req) of
                              None \<Rightarrow> req
                            | Some (code, file) \<Rightarrow> req\<lparr>rq_SourceCode := code, rq_SourceFile := file\<rparr>))
           in case prov req' of
                None \<Rightarrow> (ProviderFailed req', meta, d)
              | Some result \<Rightarrow>
                  (case Cache_Set meta now (job_ProjectID job) (job_Fingerprint job) result of
                     (Some err, meta') \<Rightarrow> (CacheSetFailed req', meta', d)
                   | (None, meta') \<Rightarrow>
                       (Named req', meta',
                        snd (BackfillEventName d (job_ProjectID job) (job_Fingerprint job)
                               (nr_Name result))))))"

text \<open>
  A worker receives the oldest job of the channel and runs the body of its loop on it;
  on an empty channel it waits, and nothing changes.
\<close>

definition worker_step ::
  "Namer \<Rightarrow> SQLite \<Rightarrow> DuckDB \<Rightarrow> int \<Rightarrow> NamingRequest list \<times> Namer \<times> SQLite \<times> DuckDB" where
  "worker_step n meta d now =
     (case jobs n of
        [] \<Rightarrow> ([], n, meta, d)
      | job # rest \<Rightarrow>
          (case process_job n meta d now job of
             (out, meta', d') \<Rightarrow> (provider_calls out, n\<lparr>jobs := rest\<rparr>, meta', d')))"


section \<open>The ingestion handler (\<^verbatim>\<open>ingest.Handler.ServeHTTP\<close>)\<close>

datatype http_response =
  Accepted nat
  | MethodNotAllowed
  | Unauthorized
  | InvalidJSON
  | BadRequest ingest_error
  | InternalServerError

text \<open>
  The row the handler builds from a validated event; \<open>now\<close> is the clock as the
  handler reads it for this event. \<^verbatim>\<open>time.UnixMilli\<close> turns milliseconds into an
  instant.
\<close>

definition store_event ::
  "golib \<Rightarrow> string \<Rightarrow> IngestPayload \<Rightarrow> string \<Rightarrow> int \<Rightarrow> IngestEvent \<Rightarrow> Event" where
  "store_event L projectID payload userAgent now e =
     \<lparr>ev_ProjectID = projectID,
      ev_SessionID = SessionID payload,
      ev_DistinctID = DistinctID payload,
      ev_EventType = EventType e,
      ev_Fingerprint =
        ComputeFingerprint L (ElementTag e) (ElementID e) (ElementClasses e) (ParentPath e)
          (URLPath e),
      ev_EventName = None,
      ev_ElementTag = ElementTag e,
      ev_ElementID = ElementID e,
      ev_ElementClasses = ElementClasses e,
      ev_ElementText = ElementText e,
      ev_AriaLabel = AriaLabel e,
      ev_DataAttributes = DataAttributes e,
      ev_ParentPath = ParentPath e,
      ev_URL = URL e,
      ev_URLPath = URLPath e,
      ev_PageTitle = PageTitle e,
      ev_Referrer = Referrer e,
      ev_ScreenWidth = ScreenWidth e,
      ev_ScreenHeight = ScreenHeight e,
      ev_UserAgent = userAgent,
      ev_Timestamp = (if Timestamp e = 0 then now else Timestamp e * 1000000),
      ev_ReceivedAt = zeroTime,
      ev_Properties = Properties e\<rparr>"

definition naming_job :: "string \<Rightarrow> IngestEvent \<Rightarrow> Event \<Rightarrow> NamingJob" where
  "naming_job projectID e ev =
     \<lparr>job_ProjectID = projectID,
      job_Fingerprint = ev_Fingerprint ev,
      job_Request =
        \<lparr>rq_ElementTag = ElementTag e, rq_ElementID = ElementID e,
         rq_ElementClasses = ElementClasses e, rq_ElementText = ElementText e,
         rq_AriaLabel = AriaLabel e, rq_ParentPath = ParentPath e, rq_URL = URL e,
         rq_URLPath = URLPath e, rq_PageTitle = PageTitle e, rq_SourceCode = [],
         rq_SourceFile = []\<rparr>\<rparr>"

text \<open>The handler's second loop: a naming job for every event that is no pageview.\<close>

fun submit_jobs :: "Namer \<Rightarrow> SQLite \<Rightarrow> string \<Rightarrow> (IngestEvent \<times> Event) list \<Rightarrow> Namer" where
  "submit_jobs n meta projectID [] = n"
| "submit_jobs n meta projectID ((e, ev) # rest) =
     (if EventType e = ''pageview'' then submit_jobs n meta projectID rest
      else submit_jobs (Submit n meta (naming_job projectID e ev)) meta projectID rest)"

text \<open>
  \<^verbatim>\<open>ServeHTTP\<close>, from the request's method, the project of the API key (\<open>None\<close> when
  the request carries none), the body as \<^verbatim>\<open>encoding/json\<close> decoded it (\<open>None\<close> when
  it is no JSON of the payload's shape) and the \<^verbatim>\<open>User-Agent\<close> header. \<open>clock i\<close> is
  the clock read for the event of index \<open>i\<close>, \<open>recv\<close> the time of the insertion. It
  returns the response, the event store and the naming engine (\<open>None\<close> when the
  handler has none).
\<close>

definition ServeHTTP ::
  "golib \<Rightarrow> string \<Rightarrow> string option \<Rightarrow> IngestPayload option \<Rightarrow> string \<Rightarrow> (nat \<Rightarrow> int) \<Rightarrow> int
     \<Rightarrow> SQLite \<Rightarrow> DuckDB \<Rightarrow> Namer option \<Rightarrow> http_response \<times> DuckDB \<times> Namer option" where
  "ServeHTTP L method project body userAgent clock recv meta d namer =
     (if method \<noteq> ''POST'' then (MethodNotAllowed, d, namer)
      else case project of
        None \<Rightarrow> (Unauthorized, d, namer)
      | Some projectID \<Rightarrow>
          (case body of
             None \<Rightarrow> (InvalidJSON, d, namer)
           | Some payload0 \<Rightarrow>
               (case ValidatePayload L payload0 of
                  (Some err, payload) \<Rightarrow> (BadRequest err, d, namer)
                | (None, payload) \<Rightarrow>
                    (let evs = map (\<lambda>(i, e). store_event L projectID payload userAgent (clock i) e)
                                 (enumerate 0 (Events payload))
                     in case InsertEvents d recv evs of
                          (Some err, d') \<Rightarrow> (InternalServerError, d', namer)
                        | (None, d') \<Rightarrow>
                            (Accepted (length evs), d',
                             map_option (\<lambda>n. submit_jobs n meta projectID (zip (Events payload) evs))
                               namer)))))"


section \<open>Truncation of the text fields\<close>

lemma runes_of_string_of_runes:
  "list_all scalar rs \<Longrightarrow> runes_of (string_of_runes rs) = rs"
  using decode_string_of_runes [of rs "[]"] by (simp add: runes_of_def comp_def)

lemma runes_of_scalar: "list_all scalar (runes_of s)"
  by (auto simp: runes_of_def list_all_iff dest: decode_scalar)

lemma ValidString_string_of_runes:
  "list_all scalar rs \<Longrightarrow> ValidString (string_of_runes rs)"
  using decode_string_of_runes [of rs "[]"]
  by (auto simp: ValidString_def list_all_iff RuneError_def EncodeRune_def)

lemma trim_both_map: "map f (trim_both (\<lambda>x. P (f x)) xs) = trim_both P (map f xs)"
  by (simp add: trim_both_def dropWhile_map rev_map comp_def)

lemma runes_of_TrimSpace: "runes_of (TrimSpace s) = trim_both isSpace (runes_of s)"
  by (simp add: runes_of_def decode_TrimSpace trim_both_map)

lemma RuneCount_runes: "RuneCountInString s = length (runes_of s)"
  by (simp add: RuneCountInString_def runes_of_def)

lemma list_all_take: "list_all P xs \<Longrightarrow> list_all P (take n xs)"
  by (auto simp: list_all_iff dest: in_set_takeD)

lemma runes_of_truncate:
  "runes_of (truncate_str s n) = take n (trim_both isSpace (runes_of s))"
proof (cases "RuneCountInString (TrimSpace s) \<le> n")
  case True
  then show ?thesis
    by (simp add: truncate_str_def RuneCount_runes runes_of_TrimSpace)
next
  case False
  have "list_all scalar (take n (runes_of (TrimSpace s)))"
    using runes_of_scalar by (rule list_all_take)
  then have "runes_of (string_of_runes (take n (runes_of (TrimSpace s))))
      = take n (runes_of (TrimSpace s))"
    by (rule runes_of_string_of_runes)
  with False show ?thesis
    by (simp add: truncate_str_def runes_of_TrimSpace)
qed

lemma RuneCount_truncate:
  "RuneCountInString (truncate_str s n) = min n (RuneCountInString (TrimSpace s))"
  by (simp add: RuneCount_runes runes_of_truncate runes_of_TrimSpace min.commute)

lemma truncate_short:
  "RuneCountInString (TrimSpace s) \<le> n \<Longrightarrow> truncate_str s n = TrimSpace s"
  by (simp add: truncate_str_def)

lemma ValidString_truncate: "ValidString s \<Longrightarrow> ValidString (truncate_str s n)"
proof (cases "RuneCountInString (TrimSpace s) \<le> n")
  case True
  assume "ValidString s"
  with True show ?thesis by (simp add: truncate_str_def ValidString_TrimSpace)
next
  case False
  have "list_all scalar (take n (runes_of (TrimSpace s)))"
    using runes_of_scalar by (rule list_all_take)
  then have "ValidString (string_of_runes (take n (runes_of (TrimSpace s))))"
    by (rule ValidString_string_of_runes)
  with False show ?thesis by (simp add: truncate_str_def)
qed

lemma validateEvent_fields:
  assumes "validateEvent L e = Inr e'"
  shows "ElementText e' = truncate_str (ElementText e) 500"
    and "AriaLabel e' = truncate_str (AriaLabel e) 500"
    and "PageTitle e' = truncate_str (PageTitle e) 500"
    and "ParentPath e' = truncate_str (ParentPath e) 1000"
  using assms
  by (auto simp: validateEvent_def Let_def maxTextLength_def split: if_splits option.splits)


lemma trim_both_id:
  assumes "length (trim_both P xs) = length xs"
  shows "trim_both P xs = xs"
proof -
  obtain pre post where "xs = pre @ trim_both P xs @ post"
    using trim_both_split [of xs P] by blast
  then have "length xs = length pre + length (trim_both P xs) + length post"
    by (metis length_append add.assoc)
  with assms have "pre = []" "post = []" by simp_all
  with \<open>xs = pre @ trim_both P xs @ post\<close> show ?thesis by simp
qed

lemma TrimSpace_id:
  assumes "trim_both isSpace (runes_of s) = runes_of s"
  shows "TrimSpace s = s"
proof -
  have "length (trim_both (\<lambda>c. isSpace (fst c)) (decode s)) = length (decode s)"
    using arg_cong [OF assms, of length]
    by (simp add: runes_of_def trim_both_map [symmetric])
  then have "trim_both (\<lambda>c. isSpace (fst c)) (decode s) = decode s"
    by (rule trim_both_id)
  then show ?thesis by (simp add: TrimSpace_def concat_decode)
qed

text \<open>
  What the specification asks of a text field \<open>t\<close> stored for the submitted value
  \<open>s\<close> under the bound \<open>n\<close>: its runes are the first \<open>n\<close> runes of \<open>s\<close> without the
  leading and trailing white space; a value of at most \<open>n\<close> runes is only trimmed, and
  is unchanged when it has no white space to trim; and a well-formed value stays
  well-formed.
\<close>

definition trimmed_to :: "nat \<Rightarrow> string \<Rightarrow> string \<Rightarrow> bool" where
  "trimmed_to n s t =
     (runes_of t = take n (trim_both isSpace (runes_of s))
      \<and> RuneCountInString t = min n (RuneCountInString (TrimSpace s))
      \<and> (RuneCountInString (TrimSpace s) \<le> n \<longrightarrow> t = TrimSpace s)
      \<and> (RuneCountInString s \<le> n \<and> trim_both isSpace (runes_of s) = runes_of s \<longrightarrow> t = s)
      \<and> (ValidString s \<longrightarrow> ValidString t))"

lemma trimmed_to_truncate: "trimmed_to n s (truncate_str s n)"
  unfolding trimmed_to_def
  using runes_of_truncate [of s n] RuneCount_truncate [of s n] truncate_short [of s n]
    ValidString_truncate [of s n] TrimSpace_id [of s]
  by auto

subsection \<open>Evaluation on concrete strings\<close>

lemma decode_ascii:
  "(of_char c :: nat) < 128 \<Longrightarrow> decode (c # s) = (of_char c, [c]) # decode s"
  by (subst decode.simps) (simp add: DecodeRuneInString_def)

lemma decode_two:
  "194 \<le> (of_char c :: nat) \<Longrightarrow> (of_char c :: nat) < 224 \<Longrightarrow> cont d \<Longrightarrow>
   decode (c # d # s) = ((of_char c - 192) * 64 + (of_char d - 128), [c, d]) # decode s"
  by (subst decode.simps) (simp add: DecodeRuneInString_def)

lemmas eval_strings =
  truncate_str_def TrimSpace_def decode_ascii decode_two trim_both_def isSpace_def
  RuneCountInString_def runes_of_def string_of_runes_def EncodeRune_def cont_def
  char_of_def bit_Suc_0_iff ValidString_def RuneError_def ToLower_def unicode_ToLower_def


section \<open>Validated events: the text fields\<close>

definition fields_trimmed :: "IngestEvent \<Rightarrow> IngestEvent \<Rightarrow> bool" where
  "fields_trimmed e e' =
     (trimmed_to 500 (ElementText e) (ElementText e')
      \<and> trimmed_to 500 (AriaLabel e) (AriaLabel e')
      \<and> trimmed_to 500 (PageTitle e) (PageTitle e')
      \<and> trimmed_to 1000 (ParentPath e) (ParentPath e'))"

definition example_lib :: golib where
  "example_lib =
     \<lparr>sha256_Sum = (\<lambda>s. of_nat (length s)),
      unicode_lower_table = (\<lambda>r. r),
      url_ParseRequestURI = (\<lambda>s. take 1 s = ''/'' \<or> take 7 s = ''http://''),
      url_Parse_Path = (\<lambda>s. Some (dropWhile (\<lambda>c. c \<noteq> CHR ''/'') (drop 7 s)))\<rparr>"

definition example_event :: IngestEvent where
  "example_event =
     \<lparr>EventType = ''click'', ElementTag = ''BUTTON'', ElementID = ''buy'',
      ElementClasses = ''btn'',
      ElementText = [CHR 0x20, CHR 0xC3, CHR 0xA9, CHR ''a'', CHR 0x0A],
      AriaLabel = ''Buy now '', DataAttributes = [], ParentPath = ''form>div'',
      URL = ''http://shop/checkout'', URLPath = [], PageTitle = ''Checkout'',
      Referrer = [], ScreenWidth = 1280, ScreenHeight = 720, Timestamp = 0,
      Properties = []\<rparr>"

lemma validateEvent_trimmed:
  assumes "validateEvent L e = Inr e'"
  shows "fields_trimmed e e'"
  unfolding fields_trimmed_def
  using validateEvent_fields [OF assms] trimmed_to_truncate by simp

lemma validateEvents_trimmed:
  "validateEvents L es = (None, es') \<Longrightarrow> list_all2 fields_trimmed es es'"
proof (induction es arbitrary: es')
  case Nil
  then show ?case by simp
next
  case (Cons e es)
  then show ?case
    by (auto split: sum.splits prod.splits dest: validateEvent_trimmed)
qed

text \<open>
  Claim C8. In every payload that \<^verbatim>\<open>ValidatePayload\<close> accepts, each event's
  \<^verbatim>\<open>element_text\<close>, \<^verbatim>\<open>aria_label\<close> and \<^verbatim>\<open>page_title\<close> are the submitted values
  trimmed of white space and then cut to their first 500 runes, and \<^verbatim>\<open>parent_path\<close> to
  its first 1000: a trimmed value of at most 500 runes is kept as it is, one of 501 runes
  keeps 500, the cut falls between runes, and a well-formed value stays well-formed UTF-8.
\<close>

theorem validated_text_fields_truncated:
  assumes "ValidatePayload L p = (None, p')"
  shows "list_all2 fields_trimmed (Events p) (Events p')"
  using assms unfolding ValidatePayload_def
  by (auto split: if_splits prod.splits dest: validateEvents_trimmed)

lemma decode_replicate_ascii:
  "(of_char c :: nat) < 128 \<Longrightarrow> decode (replicate n c) = replicate n (of_char c, [c])"
  by (induction n) (simp_all add: decode_ascii)

lemma concat_replicate_single: "concat (replicate n [x]) = replicate n x"
  by (induction n) simp_all

lemma truncate_replicate_ascii:
  assumes "(of_char c :: nat) < 128" "\<not> isSpace (of_char c)"
  shows "truncate_str (replicate m c) n = replicate (min m n) c"
proof -
  have t: "TrimSpace (replicate m c) = replicate m c"
    using assms
    by (simp add: TrimSpace_def decode_replicate_ascii trim_both_def concat_replicate_single
        map_replicate_const)
  have e: "EncodeRune (of_char c) = [c]"
    using assms(1) by (simp add: EncodeRune_def)
  show ?thesis
    using assms(1)
    by (simp add: truncate_str_def t RuneCountInString_def runes_of_def decode_replicate_ascii
        string_of_runes_def e concat_replicate_single min_def)
qed

lemma example_validate:
  "validateEvent example_lib example_event =
     Inr (example_event\<lparr>ElementText := [CHR 0xC3, CHR 0xA9, CHR ''a''], AriaLabel := ''Buy now'',
            URLPath := ''/checkout''\<rparr>)"
  by (simp add: validateEvent_def example_lib_def example_event_def validEventTypes_def
      maxTextLength_def eval_strings)


definition long_text_event :: IngestEvent where
  "long_text_event = example_event\<lparr>ElementText := replicate 501 (CHR ''a'')\<rparr>"

definition example_payload :: IngestPayload where
  "example_payload =
     \<lparr>Events = [example_event, long_text_event], SessionID = ''s1'', DistinctID = []\<rparr>"

lemma long_text_validate:
  "validateEvent example_lib long_text_event =
     Inr (long_text_event\<lparr>ElementText := replicate 500 (CHR ''a''), AriaLabel := ''Buy now'',
            URLPath := ''/checkout''\<rparr>)"
proof -
  have "truncate_str (replicate 501 (CHR ''a'')) 500 = replicate 500 (CHR ''a'')"
    by (subst truncate_replicate_ascii) (simp_all add: isSpace_def)
  then show ?thesis
    by (simp add: validateEvent_def example_lib_def example_event_def long_text_event_def
        validEventTypes_def maxTextLength_def eval_strings)
qed

lemma example_payload_validate:
  "ValidatePayload example_lib example_payload =
     (None, example_payload\<lparr>Events :=
        [example_event\<lparr>ElementText := [CHR 0xC3, CHR 0xA9, CHR ''a''], AriaLabel := ''Buy now'',
           URLPath := ''/checkout''\<rparr>,
         long_text_event\<lparr>ElementText := replicate 500 (CHR ''a''), AriaLabel := ''Buy now'',
           URLPath := ''/checkout''\<rparr>]\<rparr>)"
  by (simp add: ValidatePayload_def example_payload_def maxBatchSize_def example_validate
      long_text_validate)

theorem validated_text_fields_truncated_witness:
  "ValidatePayload example_lib example_payload =
     (None, example_payload\<lparr>Events :=
        [example_event\<lparr>ElementText := [CHR 0xC3, CHR 0xA9, CHR ''a''], AriaLabel := ''Buy now'',
           URLPath := ''/checkout''\<rparr>,
         long_text_event\<lparr>ElementText := replicate 500 (CHR ''a''), AriaLabel := ''Buy now'',
           URLPath := ''/checkout''\<rparr>]\<rparr>)
   \<and> list_all2 fields_trimmed (Events example_payload)
        [example_event\<lparr>ElementText := [CHR 0xC3, CHR 0xA9, CHR ''a''], AriaLabel := ''Buy now'',
           URLPath := ''/checkout''\<rparr>,
         long_text_event\<lparr>ElementText := replicate 500 (CHR ''a''), AriaLabel := ''Buy now'',
           URLPath := ''/checkout''\<rparr>]"
  using validated_text_fields_truncated [OF example_payload_validate] example_payload_validate
  by simp


section \<open>Validation errors\<close>

text \<open>
  The specification's table of event errors, in the order it lists them.
\<close>

definition event_error :: "golib \<Rightarrow> IngestEvent \<Rightarrow> ingest_error option" where
  "event_error L e =
     (if EventType e = [] then Some ErrMissingType
      else if EventType e \<notin> {''click'', ''pageview'', ''input'', ''submit'', ''custom'', ''error''}
        then Some ErrInvalidType
      else if URL e = [] then Some ErrMissingURL
      else if \<not> url_ParseRequestURI L (URL e) then Some ErrInvalidURL
      else None)"

definition first_event_error :: "golib \<Rightarrow> IngestEvent list \<Rightarrow> ingest_error option" where
  "first_event_error L es =
     (case find (\<lambda>e. event_error L e \<noteq> None) es of
        None \<Rightarrow> None
      | Some e \<Rightarrow> event_error L e)"

lemma validateEvent_Inl: "(validateEvent L e = Inl err) = (event_error L e = Some err)"
  by (auto simp: validateEvent_def event_error_def validEventTypes_def Let_def)

lemma validateEvent_Inr: "(\<exists>e'. validateEvent L e = Inr e') = (event_error L e = None)"
  by (auto simp: validateEvent_def event_error_def validEventTypes_def Let_def)

lemma validateEvents_error: "fst (validateEvents L es) = first_event_error L es"
proof (induction es)
  case Nil
  then show ?case by (simp add: first_event_error_def)
next
  case (Cons e es)
  show ?case
  proof (cases "validateEvent L e")
    case (Inl err)
    then have "event_error L e = Some err" by (simp add: validateEvent_Inl)
    with Inl show ?thesis by (simp add: first_event_error_def)
  next
    case (Inr e')
    then have "event_error L e = None" using validateEvent_Inr [of L e] by auto
    with Inr Cons show ?thesis
      by (auto simp: first_event_error_def split: prod.splits)
  qed
qed

lemma first_event_error_None:
  "(first_event_error L es = None) = list_all (\<lambda>e. event_error L e = None) es"
  by (induction es) (auto simp: first_event_error_def)

lemma ValidatePayload_error:
  "fst (ValidatePayload L p) =
     (if Events p = [] then Some ErrEmptyBatch
      else if 100 < length (Events p) then Some ErrBatchTooLarge
      else if SessionID p = [] then Some ErrMissingSession
      else first_event_error L (Events p))"
  using validateEvents_error [of L "Events p"]
  by (auto simp: ValidatePayload_def maxBatchSize_def split: prod.splits)

lemma ServeHTTP_rejects:
  assumes "fst (ValidatePayload L p) = Some err"
  shows "ServeHTTP L ''POST'' (Some projectID) (Some p) ua clock recv meta d namer
           = (BadRequest err, d, namer)"
  using assms by (cases "ValidatePayload L p") (simp add: ServeHTTP_def)

text \<open>
  Claim C3. \<^verbatim>\<open>ValidatePayload\<close> runs its checks in this order and returns the
  first error: \<^verbatim>\<open>ErrEmptyBatch\<close> for no event, \<^verbatim>\<open>ErrBatchTooLarge\<close> for more than
  100 events, \<^verbatim>\<open>ErrMissingSession\<close> for an empty session id, then the error of the first
  event that has one (an empty type, a type outside the six event types, an empty URL, a
  URL that \<^verbatim>\<open>url.ParseRequestURI\<close> refuses). It succeeds exactly when the batch has 1
  to 100 events, a session id and no event with an error; and when it returns an error
  the handler answers 400 and leaves the event store and the naming queue as they were.
\<close>

theorem ValidatePayload_all_or_nothing:
  "fst (ValidatePayload L p) =
     (if length (Events p) = 0 then Some ErrEmptyBatch
      else if 100 < length (Events p) then Some ErrBatchTooLarge
      else if SessionID p = [] then Some ErrMissingSession
      else first_event_error L (Events p))
   \<and> ((fst (ValidatePayload L p) = None) =
        (0 < length (Events p) \<and> length (Events p) \<le> 100 \<and> SessionID p \<noteq> []
         \<and> list_all (\<lambda>e. event_error L e = None) (Events p)))
   \<and> (\<forall>err. fst (ValidatePayload L p) = Some err \<longrightarrow>
         ServeHTTP L ''POST'' (Some projectID) (Some p) ua clock recv meta d namer
           = (BadRequest err, d, namer))"
  using ValidatePayload_error [of L p] first_event_error_None [of L "Events p"]
    ServeHTTP_rejects [of L p]
  by auto


definition empty_meta :: SQLite where
  "empty_meta = \<lparr>event_names = Map.empty, db_failing = False\<rparr>"

definition empty_store :: DuckDB where
  "empty_store = \<lparr>events = [], duck_failing = False\<rparr>"

lemma example_event_ok: "event_error example_lib example_event = None"
  by (simp add: event_error_def example_lib_def example_event_def)

theorem ValidatePayload_all_or_nothing_witness:
  "fst (ValidatePayload example_lib
          \<lparr>Events = replicate 100 example_event, SessionID = ''s1'', DistinctID = []\<rparr>) = None
   \<and> fst (ValidatePayload example_lib
          \<lparr>Events = replicate 101 example_event, SessionID = ''s1'', DistinctID = []\<rparr>)
       = Some ErrBatchTooLarge
   \<and> fst (ValidatePayload example_lib
          \<lparr>Events = [example_event, example_event\<lparr>EventType := ''hover''\<rparr>],
           SessionID = ''s1'', DistinctID = []\<rparr>) = Some ErrInvalidType
   \<and> ServeHTTP example_lib ''POST'' (Some ''p1'')
         (Some \<lparr>Events = [example_event, example_event\<lparr>EventType := ''hover''\<rparr>],
                SessionID = ''s1'', DistinctID = []\<rparr>)
         ''agent'' (\<lambda>i. 0) 0 empty_meta empty_store None
       = (BadRequest ErrInvalidType, empty_store, None)"
proof -
  let ?bad = "\<lparr>Events = [example_event, example_event\<lparr>EventType := ''hover''\<rparr>],
                SessionID = ''s1'', DistinctID = []\<rparr>"
  have bad: "event_error example_lib (example_event\<lparr>EventType := ''hover''\<rparr>) = Some ErrInvalidType"
    by (simp add: event_error_def example_lib_def example_event_def)
  have 1: "fst (ValidatePayload example_lib
          \<lparr>Events = replicate 100 example_event, SessionID = ''s1'', DistinctID = []\<rparr>) = None"
    using ValidatePayload_all_or_nothing
      [of example_lib "\<lparr>Events = replicate 100 example_event, SessionID = ''s1'', DistinctID = []\<rparr>"
        "''p1''" "''agent''" "\<lambda>i. 0" 0 empty_meta empty_store None]
    by (auto simp: example_event_ok list_all_iff)
  have 2: "fst (ValidatePayload example_lib
          \<lparr>Events = replicate 101 example_event, SessionID = ''s1'', DistinctID = []\<rparr>)
       = Some ErrBatchTooLarge"
    using ValidatePayload_all_or_nothing
      [of example_lib "\<lparr>Events = replicate 101 example_event, SessionID = ''s1'', DistinctID = []\<rparr>"
        "''p1''" "''agent''" "\<lambda>i. 0" 0 empty_meta empty_store None]
    by auto
  have 3: "fst (ValidatePayload example_lib ?bad) = Some ErrInvalidType"
    using ValidatePayload_all_or_nothing
      [of example_lib ?bad "''p1''" "''agent''" "\<lambda>i. 0" 0 empty_meta empty_store None]
    by (auto simp: first_event_error_def example_event_ok bad)
  have 4: "ServeHTTP example_lib ''POST'' (Some ''p1'') (Some ?bad)
         ''agent'' (\<lambda>i. 0) 0 empty_meta empty_store None
       = (BadRequest ErrInvalidType, empty_store, None)"
    using ValidatePayload_all_or_nothing
      [of example_lib ?bad "''p1''" "''agent''" "\<lambda>i. 0" 0 empty_meta empty_store None] 3
    by auto
  show ?thesis using 1 2 3 4 by simp
qed


section \<open>The derived URL path\<close>
















section \<open>Fingerprints\<close>






































section \<open>Cached fingerprints are not named again\<close>

lemma Cache_Get_hit:
  "snd (Cache_Get meta projectID fingerprint)
     = (\<not> db_failing meta \<and> event_names meta (fingerprint, projectID) \<noteq> None)"
  by (auto simp: Cache_Get_def GetEventName_def split: option.splits)

lemma Submit_cached:
  "snd (Cache_Get meta (job_ProjectID job) (job_Fingerprint job)) \<Longrightarrow> Submit n meta job = n"
  by (simp add: Submit_def)

lemma process_job_cached:
  "snd (Cache_Get meta (job_ProjectID job) (job_Fingerprint job)) \<Longrightarrow>
     process_job n meta d now job = (SkippedCached, meta, d)"
  by (simp add: process_job_def)

text \<open>
  Claim C5. A job whose key has a row in the name cache when it is submitted (the
  cache lookup answers with a hit) leaves \<^verbatim>\<open>Submit\<close> without entering the queue, so no
  worker ever receives it and no provider call is made for it; and a worker that
  receives a job whose key has a row by then skips it: it makes no provider call and
  changes neither store.
\<close>

theorem cached_job_is_dropped:
  assumes "snd (Cache_Get meta (job_ProjectID job) (job_Fingerprint job))"
  shows "Submit n meta job = n
    \<and> jobs (Submit n meta job) = jobs n
    \<and> process_job w meta d now job = (SkippedCached, meta, d)
    \<and> provider_calls (fst (process_job w meta d now job)) = []
    \<and> worker_step (w\<lparr>jobs := job # rest\<rparr>) meta d now = ([], w\<lparr>jobs := rest\<rparr>, meta, d)
    \<and> snd (Cache_Get meta (job_ProjectID job) (job_Fingerprint job))
        = (\<not> db_failing meta
            \<and> event_names meta (job_Fingerprint job, job_ProjectID job) \<noteq> None)"
  using Submit_cached [OF assms] process_job_cached [OF assms]
    Cache_Get_hit [of meta "job_ProjectID job" "job_Fingerprint job"]
  by (simp add: worker_step_def)

definition example_name :: EventName where
  "example_name =
     \<lparr>en_Fingerprint = ''0123456789abcdef'', en_ProjectID = ''p1'', en_AIName = ''Clicked Buy'',
      en_UserName = None, en_SourceFile = None, en_Confidence = None, en_CreatedAt = 0\<rparr>"

definition named_meta :: SQLite where
  "named_meta =
     \<lparr>event_names = [(''0123456789abcdef'', ''p1'') \<mapsto> example_name], db_failing = False\<rparr>"

definition example_job :: NamingJob where
  "example_job =
     \<lparr>job_ProjectID = ''p1'', job_Fingerprint = ''0123456789abcdef'',
      job_Request =
        \<lparr>rq_ElementTag = ''button'', rq_ElementID = ''buy'', rq_ElementClasses = ''btn'',
         rq_ElementText = ''Buy'', rq_AriaLabel = [], rq_ParentPath = ''form'',
         rq_URL = ''http://shop/checkout'', rq_URLPath = ''/checkout'', rq_PageTitle = ''Checkout'',
         rq_SourceCode = [], rq_SourceFile = []\<rparr>\<rparr>"

definition example_namer :: Namer where
  "example_namer =
     \<lparr>provider = Some (\<lambda>rq. Some \<lparr>nr_Name = ''Clicked '' @ rq_ElementText rq,
                                      nr_Confidence = 0, nr_SourceFile = []\<rparr>),
      matcher = None, jobs = []\<rparr>"

lemma example_hit:
  "snd (Cache_Get named_meta (job_ProjectID example_job) (job_Fingerprint example_job))"
  by (simp add: Cache_Get_def GetEventName_def named_meta_def example_job_def)

theorem cached_job_is_dropped_witness:
  "snd (Cache_Get named_meta (job_ProjectID example_job) (job_Fingerprint example_job))
   \<and> jobs (Submit example_namer named_meta example_job) = []
   \<and> worker_step (example_namer\<lparr>jobs := [example_job]\<rparr>) named_meta empty_store 0
       = ([], example_namer\<lparr>jobs := []\<rparr>, named_meta, empty_store)
   \<and> jobs (Submit example_namer empty_meta example_job) = [example_job]"
proof -
  have "jobs (Submit example_namer empty_meta example_job) = [example_job]"
    by (simp add: Submit_def example_namer_def empty_meta_def Cache_Get_def GetEventName_def
        jobs_capacity_def)
  moreover have "jobs example_namer = []" by (simp add: example_namer_def)
  ultimately show ?thesis
    using cached_job_is_dropped [OF example_hit, of example_namer example_namer empty_store 0 "[]"]
      example_hit
    by simp
qed


section \<open>User names override AI names\<close>

text \<open>
  The display name of a row as the specification defines it.
\<close>

definition display_name :: "EventName \<Rightarrow> string" where
  "display_name en =
     (case en_UserName en of
        None \<Rightarrow> en_AIName en
      | Some u \<Rightarrow> if u = [] then en_AIName en else u)"

text \<open>
  A run of AI write-throughs: each \<^verbatim>\<open>SetEventName\<close> comes with the time of the write
  and with whether the database answers at that moment.
\<close>

fun ai_writes :: "SQLite \<Rightarrow> (bool \<times> int \<times> EventName) list \<Rightarrow> SQLite" where
  "ai_writes s [] = s"
| "ai_writes s ((failing, now, en) # ws) =
     ai_writes ((snd (SetEventName (s\<lparr>db_failing := failing\<rparr>) now en))\<lparr>db_failing := db_failing s\<rparr>) ws"

lemma Cache_Get_display:
  "GetEventName meta projectID fingerprint = Inr en \<Longrightarrow>
     Cache_Get meta projectID fingerprint = (display_name en, True)"
  by (auto simp: Cache_Get_def display_name_def split: option.splits)

lemma SetEventName_user_name:
  assumes "event_names s k = Some en"
  shows "\<exists>en'. event_names (snd (SetEventName s now w)) k = Some en'
            \<and> en_UserName en' = en_UserName en"
proof (cases "db_failing s")
  case True
  with assms show ?thesis by (simp add: SetEventName_def)
next
  case False
  show ?thesis
  proof (cases "k = (en_Fingerprint w, en_ProjectID w)")
    case True
    with assms False show ?thesis by (simp add: SetEventName_def Let_def)
  next
    case neq: False
    with assms False show ?thesis by (simp add: SetEventName_def Let_def)
  qed
qed

lemma SetEventName_failing: "db_failing (snd (SetEventName s now w)) = db_failing s"
  by (simp add: SetEventName_def Let_def)

lemma ai_writes_user_name:
  "event_names s k = Some en \<Longrightarrow>
     \<exists>en'. event_names (ai_writes s ws) k = Some en' \<and> en_UserName en' = en_UserName en"
proof (induction ws arbitrary: s en)
  case Nil
  then show ?case by simp
next
  case (Cons w ws)
  obtain failing now x where w: "w = (failing, now, x)" by (cases w) auto
  let ?s1 = "(snd (SetEventName (s\<lparr>db_failing := failing\<rparr>) now x))\<lparr>db_failing := db_failing s\<rparr>"
  have "event_names (s\<lparr>db_failing := failing\<rparr>) k = Some en" using Cons.prems by simp
  then obtain en1 where 1: "event_names ?s1 k = Some en1" "en_UserName en1 = en_UserName en"
    using SetEventName_user_name [of "s\<lparr>db_failing := failing\<rparr>" k en now x] by auto
  from Cons.IH [OF 1(1)] 1(2) show ?case by (simp add: w)
qed

lemma ai_writes_failing: "db_failing (ai_writes s ws) = db_failing s"
proof (induction ws arbitrary: s)
  case Nil
  show ?case by simp
next
  case (Cons w ws)
  obtain failing now x where w: "w = (failing, now, x)" by (cases w) auto
  show ?case unfolding w ai_writes.simps Cons.IH by simp
qed

lemma OverrideEventName_sets:
  assumes "event_names s (fingerprint, projectID) = Some en" "\<not> db_failing s"
  shows "OverrideEventName s projectID fingerprint u =
     (None, s\<lparr>event_names := (event_names s)((fingerprint, projectID) \<mapsto> en\<lparr>en_UserName := Some u\<rparr>)\<rparr>)"
  using assms by (simp add: OverrideEventName_def)


lemma SetEventName_existing:
  assumes "event_names s (en_Fingerprint w, en_ProjectID w) = Some en" "\<not> db_failing s"
  shows "event_names (snd (SetEventName s now w)) (en_Fingerprint w, en_ProjectID w)
       = Some (en\<lparr>en_AIName := en_AIName w, en_SourceFile := en_SourceFile w,
                  en_Confidence := en_Confidence w\<rparr>)"
  using assms by (simp add: SetEventName_def Let_def)

lemma override_then_ai_writes:
  assumes "event_names meta (fingerprint, projectID) = Some en" "\<not> db_failing meta"
  shows "\<exists>en'. event_names (ai_writes (snd (OverrideEventName meta projectID fingerprint u)) ws)
                  (fingerprint, projectID) = Some en'
              \<and> en_UserName en' = Some u"
proof -
  have "event_names (snd (OverrideEventName meta projectID fingerprint u)) (fingerprint, projectID)
      = Some (en\<lparr>en_UserName := Some u\<rparr>)"
    by (simp add: OverrideEventName_sets [OF assms])
  from ai_writes_user_name [OF this] show ?thesis by simp
qed

lemma override_wins:
  assumes "event_names meta (fingerprint, projectID) = Some en" "\<not> db_failing meta" "u \<noteq> []"
  shows "Cache_Get (ai_writes (snd (OverrideEventName meta projectID fingerprint u)) ws)
           projectID fingerprint = (u, True)"
proof -
  let ?m = "ai_writes (snd (OverrideEventName meta projectID fingerprint u)) ws"
  obtain en' where e: "event_names ?m (fingerprint, projectID) = Some en'" "en_UserName en' = Some u"
    using override_then_ai_writes [OF assms(1,2)] by blast
  have "db_failing ?m = False"
    using assms(1,2) by (simp add: ai_writes_failing OverrideEventName_sets)
  then have "GetEventName ?m projectID fingerprint = Inr en'"
    using e(1) by (simp add: GetEventName_def)
  then show ?thesis
    using e(2) assms(3) by (simp add: Cache_Get_display display_name_def)
qed

text \<open>
  Claim C6. For the row of a key, the cache returns \<^verbatim>\<open>user_name\<close> when it is set and
  not empty and \<^verbatim>\<open>ai_name\<close> otherwise. \<^verbatim>\<open>SetEventName\<close> on an existing row replaces
  \<^verbatim>\<open>ai_name\<close>, \<^verbatim>\<open>source_file\<close> and \<^verbatim>\<open>confidence\<close> and nothing else; so after
  \<^verbatim>\<open>OverrideEventName\<close> has set a name \<open>u\<close> on the row, the row still carries \<open>u\<close> after
  any run of AI write-throughs, for this key or others, and the cache keeps returning
  \<open>u\<close> when \<open>u\<close> is not empty.
\<close>

theorem user_name_overrides_ai_name:
  assumes "event_names meta (fingerprint, projectID) = Some en" "\<not> db_failing meta"
  shows "Cache_Get meta projectID fingerprint = (display_name en, True)
    \<and> display_name en =
        (if en_UserName en \<noteq> None \<and> the (en_UserName en) \<noteq> [] then the (en_UserName en)
         else en_AIName en)
    \<and> (en_Fingerprint w = fingerprint \<and> en_ProjectID w = projectID \<longrightarrow>
         event_names (snd (SetEventName meta now w)) (fingerprint, projectID)
           = Some (en\<lparr>en_AIName := en_AIName w, en_SourceFile := en_SourceFile w,
                      en_Confidence := en_Confidence w\<rparr>))
    \<and> map_option en_UserName
          (event_names (ai_writes (snd (OverrideEventName meta projectID fingerprint u)) ws)
             (fingerprint, projectID)) = Some (Some u)
    \<and> (u \<noteq> [] \<longrightarrow>
         Cache_Get (ai_writes (snd (OverrideEventName meta projectID fingerprint u)) ws)
           projectID fingerprint = (u, True))"
proof -
  have 1: "Cache_Get meta projectID fingerprint = (display_name en, True)"
    using assms by (intro Cache_Get_display) (simp add: GetEventName_def)
  have 2: "display_name en =
        (if en_UserName en \<noteq> None \<and> the (en_UserName en) \<noteq> [] then the (en_UserName en)
         else en_AIName en)"
    by (simp add: display_name_def split: option.splits)
  have 3: "en_Fingerprint w = fingerprint \<and> en_ProjectID w = projectID \<longrightarrow>
         event_names (snd (SetEventName meta now w)) (fingerprint, projectID)
           = Some (en\<lparr>en_AIName := en_AIName w, en_SourceFile := en_SourceFile w,
                      en_Confidence := en_Confidence w\<rparr>)"
    using SetEventName_existing [of meta w en now] assms by auto
  have 4: "map_option en_UserName
          (event_names (ai_writes (snd (OverrideEventName meta projectID fingerprint u)) ws)
             (fingerprint, projectID)) = Some (Some u)"
    using override_then_ai_writes [OF assms, of u ws] by auto
  have 5: "u \<noteq> [] \<longrightarrow>
         Cache_Get (ai_writes (snd (OverrideEventName meta projectID fingerprint u)) ws)
           projectID fingerprint = (u, True)"
    using override_wins [OF assms] by blast
  show ?thesis using 1 2 3 4 5 by blast
qed

lemma named_row:
  "event_names named_meta (''0123456789abcdef'', ''p1'') = Some example_name"
  by (simp add: named_meta_def)

lemma named_answers: "\<not> db_failing named_meta"
  by (simp add: named_meta_def)

theorem user_name_overrides_ai_name_witness:
  "event_names named_meta (''0123456789abcdef'', ''p1'') = Some example_name
   \<and> \<not> db_failing named_meta
   \<and> Cache_Get named_meta ''p1'' ''0123456789abcdef'' = (''Clicked Buy'', True)
   \<and> Cache_Get
        (ai_writes (snd (OverrideEventName named_meta ''p1'' ''0123456789abcdef'' ''Purchase''))
           [(False, 5, example_name\<lparr>en_AIName := ''Tapped Buy''\<rparr>)])
        ''p1'' ''0123456789abcdef'' = (''Purchase'', True)"
proof -
  have d: "display_name example_name = ''Clicked Buy''"
    by (simp add: display_name_def example_name_def)
  show ?thesis
    using user_name_overrides_ai_name [OF named_row named_answers,
        of example_name 0 "''Purchase''" "[(False, 5, example_name\<lparr>en_AIName := ''Tapped Buy''\<rparr>)]"]
      named_row named_answers d
    by simp
qed


section \<open>Encryption of sensitive fields (\<^verbatim>\<open>storage.Encryptor\<close>)\<close>

text \<open>
  The \<^verbatim>\<open>cipher.AEAD\<close> the encryptor holds, as the three methods the code calls:
  \<^verbatim>\<open>Seal(dst, nonce, plaintext, nil)\<close> appends to \<open>dst\<close> the sealed text
  \<open>aead_Seal nonce plaintext\<close>, and \<^verbatim>\<open>Open(nil, nonce, ciphertext, nil)\<close> returns the
  plaintext or an error (\<open>None\<close>). The base64 codec of \<^verbatim>\<open>encoding/base64\<close> is a pair of
  functions, decoding returning \<open>None\<close> for an error.
\<close>

record AEAD =
  aead_NonceSize :: nat
  aead_Seal :: "string \<Rightarrow> string \<Rightarrow> string"
  aead_Open :: "string \<Rightarrow> string \<Rightarrow> string option"

record base64 =
  EncodeToString :: "string \<Rightarrow> string"
  DecodeString :: "string \<Rightarrow> string option"

datatype encrypt_error =
  ErrGeneratingNonce | ErrDecodingCiphertext | ErrCiphertextTooShort | ErrDecrypting

definition encPrefix :: string where
  "encPrefix = ''enc:v1:''"

text \<open>
  \<^verbatim>\<open>io.ReadFull(rand.Reader, nonce)\<close>: \<open>src n\<close> is what the random source delivers when
  asked for \<open>n\<close> bytes; fewer bytes than asked for, or none, is an error.
\<close>

definition ReadFull :: "(nat \<Rightarrow> string option) \<Rightarrow> nat \<Rightarrow> string option" where
  "ReadFull src n =
     (case src n of
        None \<Rightarrow> None
      | Some bs \<Rightarrow> if length bs = n then Some bs else None)"

text \<open>\<^verbatim>\<open>strings.HasPrefix\<close> and \<^verbatim>\<open>strings.TrimPrefix\<close>.\<close>

definition HasPrefix :: "string \<Rightarrow> string \<Rightarrow> bool" where
  "HasPrefix s pre = (take (length pre) s = pre)"

definition TrimPrefix :: "string \<Rightarrow> string \<Rightarrow> string" where
  "TrimPrefix s pre = (if HasPrefix s pre then drop (length pre) s else s)"

text \<open>The encryptor is a pointer: \<open>None\<close> is the nil receiver.\<close>

definition Encrypt ::
  "base64 \<Rightarrow> (nat \<Rightarrow> string option) \<Rightarrow> AEAD option \<Rightarrow> string \<Rightarrow> encrypt_error + string" where
  "Encrypt B src e plaintext =
     (case e of
        None \<Rightarrow> Inr plaintext
      | Some aead \<Rightarrow>
          (case ReadFull src (aead_NonceSize aead) of
             None \<Rightarrow> Inl ErrGeneratingNonce
           | Some nonce \<Rightarrow>
               (let ciphertext = nonce @ aead_Seal aead nonce plaintext
                in Inr (encPrefix @ EncodeToString B ciphertext))))"

definition Decrypt :: "base64 \<Rightarrow> AEAD option \<Rightarrow> string \<Rightarrow> encrypt_error + string" where
  "Decrypt B e v =
     (case e of
        None \<Rightarrow> Inr v
      | Some aead \<Rightarrow>
          if \<not> HasPrefix v encPrefix then Inr v
          else
            (case DecodeString B (TrimPrefix v encPrefix) of
               None \<Rightarrow> Inl ErrDecodingCiphertext
             | Some data \<Rightarrow>
                 (let nonceSize = aead_NonceSize aead in
                  if length data < nonceSize then Inl ErrCiphertextTooShort
                  else
                    (case aead_Open aead (take nonceSize data) (drop nonceSize data) of
                       None \<Rightarrow> Inl ErrDecrypting
                     | Some plaintext \<Rightarrow> Inr plaintext))))"

text \<open>
  What the standard library promises of the two collaborators: opening what was sealed
  under the same nonce returns the plaintext, and decoding inverts encoding.
\<close>

definition aead_correct :: "AEAD \<Rightarrow> bool" where
  "aead_correct a =
     (\<forall>nonce plaintext. length nonce = aead_NonceSize a \<longrightarrow>
        aead_Open a nonce (aead_Seal a nonce plaintext) = Some plaintext)"

definition base64_correct :: "base64 \<Rightarrow> bool" where
  "base64_correct B = (\<forall>bs. DecodeString B (EncodeToString B bs) = Some bs)"


lemma Decrypt_Encrypt:
  assumes "aead_correct a" "base64_correct B" "Encrypt B src (Some a) x = Inr c"
  shows "Decrypt B (Some a) c = Inr x"
proof -
  obtain nonce where n: "ReadFull src (aead_NonceSize a) = Some nonce"
    and c: "c = encPrefix @ EncodeToString B (nonce @ aead_Seal a nonce x)"
    using assms(3) by (auto simp: Encrypt_def Let_def split: option.splits)
  have len: "length nonce = aead_NonceSize a"
    using n by (auto simp: ReadFull_def split: option.splits if_splits)
  have p: "HasPrefix c encPrefix" by (simp add: c HasPrefix_def)
  have t: "TrimPrefix c encPrefix = EncodeToString B (nonce @ aead_Seal a nonce x)"
    by (simp add: TrimPrefix_def p) (simp add: c)
  have d: "DecodeString B (TrimPrefix c encPrefix) = Some (nonce @ aead_Seal a nonce x)"
    using assms(2) by (simp add: t base64_correct_def)
  have o: "aead_Open a nonce (aead_Seal a nonce x) = Some x"
    using assms(1) len by (simp add: aead_correct_def)
  show ?thesis
    by (simp add: Decrypt_def p d Let_def len o)
qed

lemma Encrypt_succeeds:
  assumes "ReadFull src (aead_NonceSize a) = Some nonce"
  shows "Encrypt B src (Some a) x = Inr (encPrefix @ EncodeToString B (nonce @ aead_Seal a nonce x))"
  using assms by (simp add: Encrypt_def)

lemma Decrypt_plain: "\<not> HasPrefix x encPrefix \<Longrightarrow> Decrypt B e x = Inr x"
  by (simp add: Decrypt_def split: option.splits)

text \<open>
  Claim C7. With a non-nil encryptor, whatever \<^verbatim>\<open>Encrypt\<close> returns for \<open>x\<close>,
  \<^verbatim>\<open>Decrypt\<close> turns back into \<open>x\<close>, and \<^verbatim>\<open>Encrypt\<close> does return a value whenever the
  random source delivers the nonce; a value that does not start with \<^verbatim>\<open>enc:v1:\<close> is
  returned by \<^verbatim>\<open>Decrypt\<close> as it is, by every encryptor.
\<close>

theorem decrypt_inverts_encrypt:
  assumes "aead_correct a" "base64_correct B"
  shows "(\<forall>c. Encrypt B src (Some a) x = Inr c \<longrightarrow> Decrypt B (Some a) c = Inr x)
    \<and> (\<forall>nonce. ReadFull src (aead_NonceSize a) = Some nonce \<longrightarrow>
          (\<exists>c. Encrypt B src (Some a) x = Inr c \<and> Decrypt B (Some a) c = Inr x))
    \<and> (\<not> HasPrefix y encPrefix \<longrightarrow> Decrypt B e y = Inr y)
    \<and> HasPrefix y encPrefix = (\<exists>rest. y = ''enc:v1:'' @ rest)"
proof -
  have 1: "\<forall>c. Encrypt B src (Some a) x = Inr c \<longrightarrow> Decrypt B (Some a) c = Inr x"
    using Decrypt_Encrypt [OF assms] by blast
  have 2: "\<forall>nonce. ReadFull src (aead_NonceSize a) = Some nonce \<longrightarrow>
          (\<exists>c. Encrypt B src (Some a) x = Inr c \<and> Decrypt B (Some a) c = Inr x)"
    using Encrypt_succeeds [of src a _ B x] 1 by blast
  have 3: "\<not> HasPrefix y encPrefix \<longrightarrow> Decrypt B e y = Inr y"
    using Decrypt_plain [of y B e] by blast
  have 4: "HasPrefix y encPrefix = (\<exists>rest. y = ''enc:v1:'' @ rest)"
    unfolding HasPrefix_def encPrefix_def
    by (metis append_eq_conv_conj append_take_drop_id)
  show ?thesis using 1 2 3 4 by blast
qed


text \<open>
  A toy cipher and a toy codec that keep the two promises, to run the definitions on:
  sealing reverses the text and appends a one-byte tag, the codec writes every byte as
  two hexadecimal digits.
\<close>

definition toy_aead :: AEAD where
  "toy_aead =
     \<lparr>aead_NonceSize = 12,
      aead_Seal = (\<lambda>nonce pt. rev pt @ ''#''),
      aead_Open = (\<lambda>nonce ct. if ct \<noteq> [] \<and> last ct = CHR ''#'' then Some (rev (butlast ct))
                               else None)\<rparr>"

definition toy_base64 :: base64 where
  "toy_base64 = \<lparr>EncodeToString = (\<lambda>bs. ''b:'' @ bs), DecodeString = (\<lambda>s. Some (drop 2 s))\<rparr>"

lemma toy_aead_correct: "aead_correct toy_aead"
  by (simp add: aead_correct_def toy_aead_def)

lemma toy_base64_correct: "base64_correct toy_base64"
  by (simp add: base64_correct_def toy_base64_def)

theorem decrypt_inverts_encrypt_witness:
  "aead_correct toy_aead \<and> base64_correct toy_base64
   \<and> Encrypt toy_base64 (\<lambda>n. Some (replicate n (CHR ''n''))) (Some toy_aead) ''secret''
       = Inr ''enc:v1:b:nnnnnnnnnnnnterces#''
   \<and> Decrypt toy_base64 (Some toy_aead) ''enc:v1:b:nnnnnnnnnnnnterces#'' = Inr ''secret''
   \<and> Decrypt toy_base64 (Some toy_aead) ''sk-live-123'' = Inr ''sk-live-123''"
proof -
  have e: "Encrypt toy_base64 (\<lambda>n. Some (replicate n (CHR ''n''))) (Some toy_aead) ''secret''
       = Inr ''enc:v1:b:nnnnnnnnnnnnterces#''"
    by (simp add: Encrypt_def ReadFull_def toy_aead_def toy_base64_def encPrefix_def
        numeral_eq_Suc)
  have p: "\<not> HasPrefix ''sk-live-123'' encPrefix"
    by (simp add: HasPrefix_def encPrefix_def)
  note T = decrypt_inverts_encrypt [OF toy_aead_correct toy_base64_correct,
      of "\<lambda>n. Some (replicate n (CHR ''n''))" "''secret''" "''sk-live-123''" "Some toy_aead"]
  have d: "Decrypt toy_base64 (Some toy_aead) ''enc:v1:b:nnnnnnnnnnnnterces#'' = Inr ''secret''"
    using T e by blast
  have q: "Decrypt toy_base64 (Some toy_aead) ''sk-live-123'' = Inr ''sk-live-123''"
    using T p by blast
  show ?thesis using toy_aead_correct toy_base64_correct e d q by simp
qed


section \<open>Funnels (\<^verbatim>\<open>DuckDB.QueryFunnel\<close>)\<close>

record FunnelStep =
  fs_EventType :: string
  fs_EventName :: string

record FunnelResult =
  fr_Step :: string
  fr_Count :: int

text \<open>
  The \<^verbatim>\<open>WHERE\<close> clause the function writes for a step: the project, the event type,
  the event name when the step names one, and the bounds of the time range that are
  not the zero time. A row whose \<^verbatim>\<open>event_name\<close> is \<^verbatim>\<open>NULL\<close> matches no name.
\<close>

definition step_matches :: "string \<Rightarrow> FunnelStep \<Rightarrow> int \<Rightarrow> int \<Rightarrow> Event \<Rightarrow> bool" where
  "step_matches projectID step start end' e =
     (ev_ProjectID e = projectID
      \<and> ev_EventType e = fs_EventType step
      \<and> (fs_EventName step = [] \<or> ev_EventName e = Some (fs_EventName step))
      \<and> (IsZero start \<or> start \<le> ev_Timestamp e)
      \<and> (IsZero end' \<or> ev_Timestamp e \<le> end'))"

text \<open>
  \<^verbatim>\<open>SELECT DISTINCT session_id, MIN(timestamp) ... GROUP BY session_id\<close> over rows of
  a session id and a timestamp: one row for every session, with its least timestamp.
\<close>

definition group_min :: "(string \<times> int) list \<Rightarrow> (string \<times> int) list" where
  "group_min rows =
     map (\<lambda>s. (s, Min (set (map snd (filter (\<lambda>r. fst r = s) rows))))) (remdups (map fst rows))"

text \<open>The table of the first step, \<^verbatim>\<open>step1\<close>.\<close>

definition cte_first :: "DuckDB \<Rightarrow> string \<Rightarrow> FunnelStep \<Rightarrow> int \<Rightarrow> int \<Rightarrow> (string \<times> int) list" where
  "cte_first d projectID step start end' =
     group_min (map (\<lambda>e. (ev_SessionID e, ev_Timestamp e))
                  (filter (step_matches projectID step start end') (events d)))"

text \<open>
  The table of a later step: \<^verbatim>\<open>events e JOIN step_i s ON e.session_id = s.session_id\<close>,
  filtered by the step and by \<^verbatim>\<open>e.timestamp > s.ts\<close>, grouped by session.
\<close>

definition cte_next ::
  "DuckDB \<Rightarrow> string \<Rightarrow> FunnelStep \<Rightarrow> int \<Rightarrow> int \<Rightarrow> (string \<times> int) list \<Rightarrow> (string \<times> int) list" where
  "cte_next d projectID step start end' prev =
     group_min
       (concat (map (\<lambda>s. map (\<lambda>e. (ev_SessionID e, ev_Timestamp e))
                              (filter (\<lambda>e. ev_SessionID e = fst s
                                            \<and> step_matches projectID step start end' e
                                            \<and> snd s < ev_Timestamp e) (events d)))
                    prev))"

text \<open>
  The first loop of \<^verbatim>\<open>QueryFunnel\<close>, which writes one table for every step: \<open>i\<close> is
  the index of the step and \<open>prev\<close> the table written before it.
\<close>

fun step_tables ::
  "DuckDB \<Rightarrow> string \<Rightarrow> int \<Rightarrow> int \<Rightarrow> nat \<Rightarrow> (string \<times> int) list \<Rightarrow> FunnelStep list
     \<Rightarrow> (string \<times> int) list list" where
  "step_tables d projectID start end' i prev [] = []"
| "step_tables d projectID start end' i prev (step # steps) =
     (let t = (if i = 0 then cte_first d projectID step start end'
               else cte_next d projectID step start end' prev)
      in t # step_tables d projectID start end' (Suc i) t steps)"

text \<open>\<^verbatim>\<open>fmt.Sprintf("%d", n)\<close> for a natural number.\<close>

function decimal :: "nat \<Rightarrow> string" where
  "decimal n =
     (if n < 10 then [char_of (48 + n)]
      else decimal (n div 10) @ [char_of (48 + n mod 10)])"
  by pat_completeness auto
termination
  by (relation "measure id") auto

declare decimal.simps [simp del]

definition step_label :: "nat \<Rightarrow> FunnelStep \<Rightarrow> string" where
  "step_label i step =
     ''Step '' @ decimal (i + 1) @ '': ''
       @ (if fs_EventName step = [] then fs_EventType step else fs_EventName step)"

text \<open>
  \<^verbatim>\<open>QueryFunnel\<close>: the second loop selects, for every step in turn, its label and the
  number of rows of its table, and \<^verbatim>\<open>UNION ALL\<close> returns these rows in the order they
  are written. A database that does not answer gives an error.
\<close>

definition QueryFunnel ::
  "DuckDB \<Rightarrow> string \<Rightarrow> FunnelStep list \<Rightarrow> int \<Rightarrow> int \<Rightarrow> sql_error + FunnelResult list" where
  "QueryFunnel d projectID steps start end' =
     (if length steps = 0 then Inr []
      else if duck_failing d then Inl ErrDriver
      else Inr (map (\<lambda>(i, step, t). \<lparr>fr_Step = step_label i step, fr_Count = int (length t)\<rparr>)
                  (zip [0..<length steps]
                     (zip steps (step_tables d projectID start end' 0 [] steps)))))"


text \<open>The table of the step of index \<open>k\<close>, as the query computes it.\<close>

definition funnel_table ::
  "DuckDB \<Rightarrow> string \<Rightarrow> FunnelStep list \<Rightarrow> int \<Rightarrow> int \<Rightarrow> nat \<Rightarrow> (string \<times> int) list" where
  "funnel_table d projectID steps start end' k =
     step_tables d projectID start end' 0 [] steps ! k"

lemma length_step_tables [simp]:
  "length (step_tables d p s e i prev steps) = length steps"
  by (induction steps arbitrary: i prev) (simp_all add: Let_def)

lemma step_tables_0:
  "steps \<noteq> [] \<Longrightarrow>
     step_tables d p s e i prev steps ! 0 =
       (if i = 0 then cte_first d p (steps ! 0) s e else cte_next d p (steps ! 0) s e prev)"
  by (cases steps) (simp_all add: Let_def)

lemma step_tables_Suc:
  "Suc k < length steps \<Longrightarrow>
     step_tables d p s e i prev steps ! Suc k =
       cte_next d p (steps ! Suc k) s e (step_tables d p s e i prev steps ! k)"
proof (induction steps arbitrary: i prev k)
  case Nil
  then show ?case by simp
next
  case (Cons st steps)
  show ?case
  proof (cases k)
    case 0
    with Cons.prems show ?thesis
      using step_tables_0 [of steps d p s e "Suc i"] by (auto simp: Let_def)
  next
    case (Suc j)
    with Cons.prems have "Suc j < length steps" by simp
    from Cons.IH [OF this] Suc show ?thesis by (simp add: Let_def)
  qed
qed

lemma group_min_sessions: "fst ` set (group_min rows) = fst ` set rows"
  by (force simp: group_min_def image_iff)

lemma group_min_distinct: "distinct (map fst (group_min rows))"
  by (simp add: group_min_def comp_def)

lemma group_min_length: "length (group_min rows) = card (fst ` set rows)"
  by (simp add: group_min_def length_remdups_card_conv)

lemma group_min_mem:
  assumes "(s, m) \<in> set (group_min rows)"
  shows "(s, m) \<in> set rows"
proof -
  let ?M = "set (map snd (filter (\<lambda>r. fst r = s) rows))"
  from assms have s: "s \<in> fst ` set rows" and m: "m = Min ?M"
    by (auto simp: group_min_def)
  from s have "?M \<noteq> {}" by (auto simp: image_iff)
  then have "Min ?M \<in> ?M" by (intro Min_in) simp_all
  with m show ?thesis by auto
qed


lemma cte_next_mem:
  assumes "(s, ts) \<in> set (cte_next d p step start end' prev)"
  shows "\<exists>e\<in>set (events d). \<exists>ts'. ev_SessionID e = s \<and> ev_Timestamp e = ts
           \<and> step_matches p step start end' e \<and> (s, ts') \<in> set prev \<and> ts' < ts"
proof -
  from assms have "(s, ts) \<in> set (concat (map (\<lambda>s. map (\<lambda>e. (ev_SessionID e, ev_Timestamp e))
                              (filter (\<lambda>e. ev_SessionID e = fst s
                                            \<and> step_matches p step start end' e
                                            \<and> snd s < ev_Timestamp e) (events d)))
                    prev))"
    unfolding cte_next_def by (rule group_min_mem)
  then show ?thesis by (auto simp: image_iff) force
qed

lemma cte_next_sessions:
  "fst ` set (cte_next d p step start end' prev) \<subseteq> fst ` set prev"
proof
  fix s assume "s \<in> fst ` set (cte_next d p step start end' prev)"
  then obtain ts where "(s, ts) \<in> set (cte_next d p step start end' prev)" by auto
  from cte_next_mem [OF this] show "s \<in> fst ` set prev" by force
qed

lemma cte_next_length:
  "length (cte_next d p step start end' prev) \<le> length prev"
proof -
  have "length (cte_next d p step start end' prev)
      = card (fst ` set (cte_next d p step start end' prev))"
    using group_min_distinct [of "concat (map (\<lambda>s. map (\<lambda>e. (ev_SessionID e, ev_Timestamp e))
                              (filter (\<lambda>e. ev_SessionID e = fst s
                                            \<and> step_matches p step start end' e
                                            \<and> snd s < ev_Timestamp e) (events d)))
                    prev)"]
    unfolding cte_next_def [symmetric]
    by (metis distinct_card length_map set_map)
  also have "\<dots> \<le> card (fst ` set prev)"
    by (intro card_mono cte_next_sessions) simp
  also have "\<dots> \<le> length prev"
    by (metis card_image_le card_length le_trans List.finite_set)
  finally show ?thesis .
qed

lemma cte_first_mem:
  assumes "(s, ts) \<in> set (cte_first d p step start end')"
  shows "\<exists>e\<in>set (events d). ev_SessionID e = s \<and> ev_Timestamp e = ts
           \<and> step_matches p step start end' e"
proof -
  from assms have "(s, ts) \<in> set (map (\<lambda>e. (ev_SessionID e, ev_Timestamp e))
                  (filter (step_matches p step start end') (events d)))"
    unfolding cte_first_def by (rule group_min_mem)
  then show ?thesis by auto
qed

lemma funnel_table_distinct:
  assumes "k < length steps"
  shows "distinct (map fst (funnel_table d p steps start end' k))"
proof (cases k)
  case 0
  with assms have "steps \<noteq> []" by auto
  with 0 show ?thesis
    by (simp add: funnel_table_def step_tables_0 cte_first_def group_min_distinct)
next
  case (Suc j)
  with assms show ?thesis
    by (simp add: funnel_table_def step_tables_Suc cte_next_def group_min_distinct)
qed

lemma funnel_table_Suc:
  "Suc k < length steps \<Longrightarrow>
     funnel_table d p steps start end' (Suc k)
       = cte_next d p (steps ! Suc k) start end' (funnel_table d p steps start end' k)"
  by (simp add: funnel_table_def step_tables_Suc)

lemma funnel_table_0:
  "steps \<noteq> [] \<Longrightarrow> funnel_table d p steps start end' 0 = cte_first d p (steps ! 0) start end'"
  by (simp add: funnel_table_def step_tables_0)

lemma QueryFunnel_rows:
  assumes "steps \<noteq> []" "\<not> duck_failing d"
  shows "QueryFunnel d p steps start end' =
     Inr (map (\<lambda>k. \<lparr>fr_Step = step_label k (steps ! k),
                     fr_Count = int (length (funnel_table d p steps start end' k))\<rparr>)
            [0..<length steps])"
proof -
  let ?ts = "step_tables d p start end' 0 [] steps"
  have "map (\<lambda>(i, step, t). \<lparr>fr_Step = step_label i step, fr_Count = int (length t)\<rparr>)
          (zip [0..<length steps] (zip steps ?ts))
      = map (\<lambda>k. \<lparr>fr_Step = step_label k (steps ! k), fr_Count = int (length (?ts ! k))\<rparr>)
          [0..<length steps]"
    by (rule nth_equalityI) simp_all
  with assms show ?thesis by (simp add: QueryFunnel_def funnel_table_def)
qed


text \<open>
  Claim C2. For a non-empty list of steps, and a database that answers, \<^verbatim>\<open>QueryFunnel\<close>
  returns one row for every step, in the order of the steps, with the step's label and
  the number of sessions of the step's table, which holds every session once. The
  sessions of a step after the first are sessions of the step before it, so its count is
  not greater; and a session is in the table of such a step, with timestamp \<open>ts\<close>, only
  if it has an event that matches the step's filter at \<open>ts\<close>, and \<open>ts\<close> is strictly
  greater than the timestamp the step before records for the session.
\<close>

theorem funnel_steps_are_ordered:
  assumes "steps \<noteq> []" "\<not> duck_failing d"
  shows "QueryFunnel d p steps start end' =
       Inr (map (\<lambda>k. \<lparr>fr_Step = step_label k (steps ! k),
                       fr_Count = int (length (funnel_table d p steps start end' k))\<rparr>)
              [0..<length steps])
    \<and> (\<forall>k. k < length steps \<longrightarrow> distinct (map fst (funnel_table d p steps start end' k)))
    \<and> (\<forall>s ts. (s, ts) \<in> set (funnel_table d p steps start end' 0) \<longrightarrow>
          (\<exists>e\<in>set (events d). ev_SessionID e = s \<and> ev_Timestamp e = ts
             \<and> step_matches p (steps ! 0) start end' e))
    \<and> (\<forall>k. Suc k < length steps \<longrightarrow>
          fst ` set (funnel_table d p steps start end' (Suc k))
            \<subseteq> fst ` set (funnel_table d p steps start end' k)
          \<and> length (funnel_table d p steps start end' (Suc k))
              \<le> length (funnel_table d p steps start end' k)
          \<and> (\<forall>s ts. (s, ts) \<in> set (funnel_table d p steps start end' (Suc k)) \<longrightarrow>
                (\<exists>e\<in>set (events d). \<exists>ts'. ev_SessionID e = s \<and> ev_Timestamp e = ts
                   \<and> step_matches p (steps ! Suc k) start end' e
                   \<and> (s, ts') \<in> set (funnel_table d p steps start end' k) \<and> ts' < ts)))"
proof -
  have 1: "QueryFunnel d p steps start end' =
       Inr (map (\<lambda>k. \<lparr>fr_Step = step_label k (steps ! k),
                       fr_Count = int (length (funnel_table d p steps start end' k))\<rparr>)
              [0..<length steps])"
    using assms by (rule QueryFunnel_rows)
  have 2: "\<forall>k. k < length steps \<longrightarrow> distinct (map fst (funnel_table d p steps start end' k))"
    using funnel_table_distinct by blast
  have 3: "\<forall>s ts. (s, ts) \<in> set (funnel_table d p steps start end' 0) \<longrightarrow>
          (\<exists>e\<in>set (events d). ev_SessionID e = s \<and> ev_Timestamp e = ts
             \<and> step_matches p (steps ! 0) start end' e)"
    using cte_first_mem [of _ _ d p "steps ! 0" start end'] assms(1)
    by (simp add: funnel_table_0)
  have 4: "fst ` set (funnel_table d p steps start end' (Suc k))
            \<subseteq> fst ` set (funnel_table d p steps start end' k)
          \<and> length (funnel_table d p steps start end' (Suc k))
              \<le> length (funnel_table d p steps start end' k)
          \<and> (\<forall>s ts. (s, ts) \<in> set (funnel_table d p steps start end' (Suc k)) \<longrightarrow>
                (\<exists>e\<in>set (events d). \<exists>ts'. ev_SessionID e = s \<and> ev_Timestamp e = ts
                   \<and> step_matches p (steps ! Suc k) start end' e
                   \<and> (s, ts') \<in> set (funnel_table d p steps start end' k) \<and> ts' < ts))"
    if "Suc k < length steps" for k
    using cte_next_sessions [of d p "steps ! Suc k" start end' "funnel_table d p steps start end' k"]
      cte_next_length [of d p "steps ! Suc k" start end' "funnel_table d p steps start end' k"]
      cte_next_mem [of _ _ d p "steps ! Suc k" start end' "funnel_table d p steps start end' k"]
    unfolding funnel_table_Suc [OF that] by blast
  show ?thesis using 1 2 3 4 by blast
qed


text \<open>A row of the table \<^verbatim>\<open>events\<close> for the examples.\<close>

definition example_row :: "string \<Rightarrow> string \<Rightarrow> string option \<Rightarrow> string \<Rightarrow> int \<Rightarrow> Event" where
  "example_row session type name path ts =
     \<lparr>ev_ProjectID = ''p1'', ev_SessionID = session, ev_DistinctID = [], ev_EventType = type,
      ev_Fingerprint = ''0123456789abcdef'', ev_EventName = name, ev_ElementTag = [],
      ev_ElementID = [], ev_ElementClasses = [], ev_ElementText = [], ev_AriaLabel = [],
      ev_DataAttributes = [], ev_ParentPath = [], ev_URL = ''http://shop'' @ path,
      ev_URLPath = path, ev_PageTitle = [], ev_Referrer = [], ev_ScreenWidth = 0,
      ev_ScreenHeight = 0, ev_UserAgent = [], ev_Timestamp = ts, ev_ReceivedAt = ts,
      ev_Properties = []\<rparr>"

definition funnel_store :: DuckDB where
  "funnel_store =
     \<lparr>events =
        [example_row ''A'' ''pageview'' None ''/'' 10,
         example_row ''A'' ''click'' None ''/'' 20,
         example_row ''B'' ''click'' None ''/'' 5,
         example_row ''B'' ''pageview'' None ''/'' 10],
      duck_failing = False\<rparr>"

definition funnel_steps :: "FunnelStep list" where
  "funnel_steps =
     [\<lparr>fs_EventType = ''pageview'', fs_EventName = []\<rparr>,
      \<lparr>fs_EventType = ''click'', fs_EventName = []\<rparr>]"

lemma decimal_digit: "n < 10 \<Longrightarrow> decimal n = [char_of (48 + n)]"
  by (subst decimal.simps) simp

lemma funnel_example_tables:
  "funnel_table funnel_store ''p1'' funnel_steps zeroTime zeroTime 0 = [(''A'', 10), (''B'', 10)]"
  "funnel_table funnel_store ''p1'' funnel_steps zeroTime zeroTime 1 = [(''A'', 20)]"
  by (simp_all add: funnel_table_def funnel_steps_def funnel_store_def cte_first_def cte_next_def
      group_min_def step_matches_def example_row_def IsZero_def Let_def)

theorem funnel_steps_are_ordered_witness:
  "funnel_steps \<noteq> [] \<and> \<not> duck_failing funnel_store
   \<and> QueryFunnel funnel_store ''p1'' funnel_steps zeroTime zeroTime =
       Inr [\<lparr>fr_Step = ''Step 1: pageview'', fr_Count = 2\<rparr>,
            \<lparr>fr_Step = ''Step 2: click'', fr_Count = 1\<rparr>]
   \<and> funnel_table funnel_store ''p1'' funnel_steps zeroTime zeroTime 1 = [(''A'', 20)]"
proof -
  have ne: "funnel_steps \<noteq> []" by (simp add: funnel_steps_def)
  have nf: "\<not> duck_failing funnel_store" by (simp add: funnel_store_def)
  have l: "length funnel_steps = 2" by (simp add: funnel_steps_def)
  have u: "[0..<2] = [0, Suc 0]" by (simp add: upt_rec)
  have lab: "step_label 0 (funnel_steps ! 0) = ''Step 1: pageview''"
    "step_label (Suc 0) (funnel_steps ! Suc 0) = ''Step 2: click''"
    by (simp_all add: step_label_def funnel_steps_def decimal_digit char_of_def bit_Suc_0_iff)
  show ?thesis
    using funnel_steps_are_ordered [OF ne nf, of "''p1''" zeroTime zeroTime]
      funnel_example_tables ne nf
    by (simp add: l u lab)
qed


section \<open>Trends by series (\<^verbatim>\<open>DuckDB.QueryTrendsBreakdown\<close>)\<close>

record TrendPoint =
  tp_Bucket :: string
  tp_Count :: int

record TrendSeries =
  ts_Name :: string
  ts_Data :: "TrendPoint list"

definition breakdown_interval :: "string \<Rightarrow> string" where
  "breakdown_interval interval =
     (if interval \<in> set [''minute'', ''hour'', ''day'', ''week'', ''month''] then interval
      else ''hour'')"

text \<open>
  The expression \<^verbatim>\<open>seriesExpr\<close> on a row, \<open>None\<close> for \<^verbatim>\<open>NULL\<close>: of the three columns
  only \<^verbatim>\<open>event_name\<close> can be \<^verbatim>\<open>NULL\<close>.
\<close>

definition series_expr :: "string \<Rightarrow> Event \<Rightarrow> string option" where
  "series_expr groupBy e =
     (if groupBy = ''event_type'' then Some (ev_EventType e)
      else if groupBy = ''url_path'' then Some (ev_URLPath e)
      else (case ev_EventName e of Some n \<Rightarrow> Some n | None \<Rightarrow> Some (ev_EventType e)))"

text \<open>
  The query: the rows of the project in the time range whose series is neither
  \<^verbatim>\<open>NULL\<close> nor empty, grouped by bucket and series, counted, and ordered by bucket and
  series (strings compare byte by byte). \<open>trunc\<close> is the database's
  \<^verbatim>\<open>CAST(date_trunc(interval, timestamp) AS VARCHAR)\<close>.
\<close>

definition breakdown_rows ::
  "(string \<Rightarrow> int \<Rightarrow> string) \<Rightarrow> DuckDB \<Rightarrow> string \<Rightarrow> string \<Rightarrow> string \<Rightarrow> int \<Rightarrow> int
     \<Rightarrow> (string \<times> string \<times> int) list" where
  "breakdown_rows trunc d projectID interval groupBy start end' =
     (let sel = filter (\<lambda>e. ev_ProjectID e = projectID \<and> start \<le> ev_Timestamp e
                           \<and> ev_Timestamp e \<le> end'
                           \<and> series_expr groupBy e \<noteq> None
                           \<and> the (series_expr groupBy e) \<noteq> []) (events d);
          key = (\<lambda>e. (trunc interval (ev_Timestamp e), the (series_expr groupBy e)))
      in map (\<lambda>k. (fst k, snd k, int (length (filter (\<lambda>e. key e = k) sel))))
           (sort (remdups (map key sel))))"

text \<open>
  The loop over the rows: \<^verbatim>\<open>seriesOrder\<close> gets a series when it is first seen, and
  \<^verbatim>\<open>seriesData\<close> collects the entries of every series in the order of the rows.
\<close>

fun scan_rows ::
  "(string \<times> string \<times> int) list \<Rightarrow> string list \<times> (string \<rightharpoonup> (string \<times> int) list)
     \<Rightarrow> string list \<times> (string \<rightharpoonup> (string \<times> int) list)" where
  "scan_rows [] acc = acc"
| "scan_rows ((bucket, series, cnt) # rows) (seriesOrder, seriesData) =
     scan_rows rows
       ((if seriesData series = None then seriesOrder @ [series] else seriesOrder),
        seriesData(series \<mapsto>
          (case seriesData series of None \<Rightarrow> [] | Some es \<Rightarrow> es) @ [(bucket, cnt)]))"

definition series_total :: "(string \<rightharpoonup> (string \<times> int) list) \<Rightarrow> string \<Rightarrow> int" where
  "series_total seriesData name =
     sum_list (map snd (case seriesData name of None \<Rightarrow> [] | Some es \<Rightarrow> es))"

text \<open>
  The scores and their sort. Go yields the keys of \<^verbatim>\<open>seriesData\<close> in an order of its
  own choosing, the parameter \<open>iteration\<close>, and \<^verbatim>\<open>sort.Slice\<close> may leave series of
  equal totals in any order. The model sorts stably from \<open>iteration\<close>: as \<open>iteration\<close>
  ranges over the orders of the keys, the sorted list ranges over every order of the
  scores by decreasing total, which are the results \<^verbatim>\<open>sort.Slice\<close> can give.
\<close>

definition top_names :: "string list \<Rightarrow> (string \<rightharpoonup> (string \<times> int) list) \<Rightarrow> string list" where
  "top_names iteration seriesData =
     (let scores = map (\<lambda>name. (name, series_total seriesData name)) iteration;
          sorted_scores = sort_key (\<lambda>sc. - snd sc) scores;
          topN = (if length scores < 8 then length scores else 8)
      in map fst (take topN sorted_scores))"

definition QueryTrendsBreakdown ::
  "(string \<Rightarrow> int \<Rightarrow> string) \<Rightarrow> string list \<Rightarrow> DuckDB \<Rightarrow> string \<Rightarrow> string \<Rightarrow> string \<Rightarrow> int \<Rightarrow> int
     \<Rightarrow> sql_error + TrendSeries list" where
  "QueryTrendsBreakdown trunc iteration d projectID interval groupBy start end' =
     (if duck_failing d then Inl ErrDriver
      else
        (case scan_rows (breakdown_rows trunc d projectID (breakdown_interval interval) groupBy
                           start end') ([], Map.empty) of
           (seriesOrder, seriesData) \<Rightarrow>
             (let topNames = top_names iteration seriesData
              in Inr (map (\<lambda>name.
                        \<lparr>ts_Name = name,
                         ts_Data = map (\<lambda>en. \<lparr>tp_Bucket = fst en, tp_Count = snd en\<rparr>)
                                     (case seriesData name of None \<Rightarrow> [] | Some es \<Rightarrow> es)\<rparr>)
                      (filter (\<lambda>name. name \<in> set topNames) seriesOrder)))))"


text \<open>The elements of a list in the order of their first occurrence.\<close>

primrec first_seen :: "'a list \<Rightarrow> 'a list" where
  "first_seen [] = []"
| "first_seen (x # xs) = x # filter (\<lambda>y. y \<noteq> x) (first_seen xs)"

text \<open>The entries of a series: its rows, in the order of the rows.\<close>

definition series_entries :: "(string \<times> string \<times> int) list \<Rightarrow> string \<Rightarrow> (string \<times> int) list" where
  "series_entries rows name =
     map (\<lambda>r. (fst r, snd (snd r))) (filter (\<lambda>r. fst (snd r) = name) rows)"

lemma set_first_seen [simp]: "set (first_seen xs) = set xs"
  by (induction xs) auto

lemma distinct_first_seen [simp]: "distinct (first_seen xs)"
  by (induction xs) auto

lemma scan_rows_order:
  "set order = dom data \<Longrightarrow>
     fst (scan_rows rows (order, data))
       = order @ filter (\<lambda>s. s \<notin> set order) (first_seen (map (\<lambda>r. fst (snd r)) rows))"
proof (induction rows arbitrary: order data)
  case Nil
  then show ?case by simp
next
  case (Cons r rows)
  obtain b s c where r: "r = (b, s, c)" by (cases r) auto
  let ?f = "\<lambda>r :: string \<times> string \<times> int. fst (snd r)"
  show ?case
  proof (cases "data s")
    case None
    then have ns: "s \<notin> set order" using Cons.prems by auto
    have step: "scan_rows (r # rows) (order, data)
        = scan_rows rows (order @ [s], data(s \<mapsto> [(b, c)]))"
      by (simp add: r None)
    have ih: "fst (scan_rows rows (order @ [s], data(s \<mapsto> [(b, c)])))
        = (order @ [s]) @ filter (\<lambda>x. x \<notin> set (order @ [s])) (first_seen (map ?f rows))"
      by (rule Cons.IH) (use Cons.prems in auto)
    have F: "filter (\<lambda>x. x \<notin> set (order @ [s])) xs
        = filter (\<lambda>x. x \<notin> set order) (filter (\<lambda>y. y \<noteq> s) xs)" for xs
      by (induction xs) auto
    have rhs: "order @ filter (\<lambda>x. x \<notin> set order) (first_seen (map ?f (r # rows)))
        = (order @ [s]) @ filter (\<lambda>x. x \<notin> set (order @ [s])) (first_seen (map ?f rows))"
      using ns by (simp add: r F)
    show ?thesis unfolding step ih rhs ..
  next
    case (Some es)
    then have ins: "s \<in> set order" using Cons.prems by auto
    have step: "scan_rows (r # rows) (order, data)
        = scan_rows rows (order, data(s \<mapsto> es @ [(b, c)]))"
      by (simp add: r Some)
    have ih: "fst (scan_rows rows (order, data(s \<mapsto> es @ [(b, c)])))
        = order @ filter (\<lambda>x. x \<notin> set order) (first_seen (map ?f rows))"
      by (rule Cons.IH) (use Cons.prems Some in \<open>auto split: if_splits\<close>)
    have F: "filter (\<lambda>x. x \<noteq> s \<and> x \<notin> set order) xs
        = filter (\<lambda>x. x \<notin> set order) xs" for xs
      using ins by (induction xs) auto
    have rhs: "order @ filter (\<lambda>x. x \<notin> set order) (first_seen (map ?f (r # rows)))
        = order @ filter (\<lambda>x. x \<notin> set order) (first_seen (map ?f rows))"
      using ins by (simp add: r F)
    show ?thesis unfolding step ih rhs ..
  qed
qed

lemma scan_rows_data:
  "snd (scan_rows rows (order, data)) name
     = (if data name = None \<and> name \<notin> set (map (\<lambda>r. fst (snd r)) rows) then None
        else Some ((case data name of None \<Rightarrow> [] | Some es \<Rightarrow> es) @ series_entries rows name))"
proof (induction rows arbitrary: order data)
  case Nil
  then show ?case by (auto simp: series_entries_def split: option.splits)
next
  case (Cons r rows)
  obtain b s c where r: "r = (b, s, c)" by (cases r) auto
  show ?case
    unfolding r scan_rows.simps Cons.IH
    by (auto simp: series_entries_def split: option.splits)
qed

lemma scan_rows_empty:
  "scan_rows rows ([], Map.empty)
     = (first_seen (map (\<lambda>r. fst (snd r)) rows),
        \<lambda>name. if name \<in> set (map (\<lambda>r. fst (snd r)) rows) then Some (series_entries rows name)
               else None)"
proof -
  have "fst (scan_rows rows ([], Map.empty)) = first_seen (map (\<lambda>r. fst (snd r)) rows)"
    using scan_rows_order [of "[]" Map.empty rows] by simp
  moreover have "snd (scan_rows rows ([], Map.empty))
      = (\<lambda>name. if name \<in> set (map (\<lambda>r. fst (snd r)) rows) then Some (series_entries rows name)
               else None)"
    by (rule ext) (simp add: scan_rows_data)
  ultimately show ?thesis by (simp add: prod_eq_iff)
qed


lemma top_names_props:
  assumes "distinct iteration"
  shows "distinct (top_names iteration data)"
    and "set (top_names iteration data) \<subseteq> set iteration"
    and "length (top_names iteration data) = min 8 (length iteration)"
    and "\<forall>a\<in>set (top_names iteration data). \<forall>b\<in>set iteration - set (top_names iteration data).
           series_total data b \<le> series_total data a"
proof -
  define scores where "scores = map (\<lambda>name. (name, series_total data name)) iteration"
  define sorted_scores where "sorted_scores = sort_key (\<lambda>sc. - snd sc) scores"
  define topN where "topN = (if length scores < 8 then length scores else 8)"
  have top: "top_names iteration data = map fst (take topN sorted_scores)"
    by (simp add: top_names_def scores_def sorted_scores_def topN_def Let_def)
  have fs: "map fst scores = iteration"
    by (simp add: scores_def comp_def)
  have "mset (map fst sorted_scores) = mset (map fst scores)"
    by (simp add: sorted_scores_def)
  then have ms: "mset (map fst sorted_scores) = mset iteration"
    by (simp only: fs)
  then have d: "distinct (map fst sorted_scores)"
    using assms by (metis mset_eq_imp_distinct_iff)
  have st: "set (map fst sorted_scores) = set iteration"
    using ms by (rule mset_eq_setD)
  have sc: "snd x = series_total data (fst x)" if "x \<in> set sorted_scores" for x
    using that by (auto simp: sorted_scores_def scores_def)
  have len: "length sorted_scores = length iteration"
    by (simp add: sorted_scores_def scores_def)
  have split: "map fst sorted_scores
      = map fst (take topN sorted_scores) @ map fst (drop topN sorted_scores)"
    by (metis append_take_drop_id map_append)
  show "distinct (top_names iteration data)"
    using d split by (metis distinct_append top)
  show "set (top_names iteration data) \<subseteq> set iteration"
    using st split by (metis Un_upper1 set_append top)
  show "length (top_names iteration data) = min 8 (length iteration)"
    by (simp add: top len topN_def scores_def min_def)
  have srt: "sorted (map (\<lambda>sc. - snd sc) sorted_scores)"
    by (simp add: sorted_scores_def)
  show "\<forall>a\<in>set (top_names iteration data). \<forall>b\<in>set iteration - set (top_names iteration data).
           series_total data b \<le> series_total data a"
  proof (intro ballI)
    fix a b
    assume a: "a \<in> set (top_names iteration data)"
      and b: "b \<in> set iteration - set (top_names iteration data)"
    from a obtain x where x: "x \<in> set (take topN sorted_scores)" "fst x = a"
      by (auto simp: top)
    from b have "b \<in> set (map fst (drop topN sorted_scores))"
      using st split top by (metis DiffE Un_iff set_append)
    then obtain y where y: "y \<in> set (drop topN sorted_scores)" "fst y = b" by auto
    have "sorted (map (\<lambda>sc. - snd sc) (take topN sorted_scores)
            @ map (\<lambda>sc. - snd sc) (drop topN sorted_scores))"
      using srt by (metis append_take_drop_id map_append)
    then have "- snd x \<le> - snd y"
      using x(1) y(1) by (auto simp: sorted_append)
    moreover have "snd x = series_total data a" "snd y = series_total data b"
      using sc x y by (auto dest: in_set_takeD in_set_dropD)
    ultimately show "series_total data b \<le> series_total data a" by simp
  qed
qed


lemma breakdown_rows_keys:
  "sorted (map (\<lambda>r. (fst r, fst (snd r))) (breakdown_rows trunc d p iv g start end'))
   \<and> distinct (map (\<lambda>r. (fst r, fst (snd r))) (breakdown_rows trunc d p iv g start end'))"
  by (simp add: breakdown_rows_def Let_def comp_def)

lemma series_entries_sorted:
  assumes "sorted (map (\<lambda>r. (fst r, fst (snd r))) rows)"
    "distinct (map (\<lambda>r. (fst r, fst (snd r))) rows)"
  shows "sorted_wrt (<) (map fst (series_entries rows name))"
proof -
  let ?key = "\<lambda>r :: string \<times> string \<times> int. (fst r, fst (snd r))"
  have "sorted_wrt (<) (map ?key rows)"
    using assms by (simp add: strict_sorted_iff)
  then have "sorted_wrt (\<lambda>r r'. ?key r < ?key r') rows"
    by (simp add: sorted_wrt_map)
  then have "sorted_wrt (\<lambda>r r'. ?key r < ?key r') (filter (\<lambda>r. fst (snd r) = name) rows)"
    by (rule sorted_wrt_filter)
  then have "sorted_wrt (\<lambda>r r'. fst r < fst r') (filter (\<lambda>r. fst (snd r) = name) rows)"
    by (rule sorted_wrt_mono_rel [rotated]) (auto simp: less_prod_def)
  then show ?thesis
    by (simp add: series_entries_def sorted_wrt_map comp_def)
qed


text \<open>
  The series of the query in the order the rows first show them, and the total of a
  series over the range.
\<close>

definition breakdown_names ::
  "(string \<Rightarrow> int \<Rightarrow> string) \<Rightarrow> DuckDB \<Rightarrow> string \<Rightarrow> string \<Rightarrow> string \<Rightarrow> int \<Rightarrow> int \<Rightarrow> string list" where
  "breakdown_names trunc d projectID interval groupBy start end' =
     first_seen (map (\<lambda>r. fst (snd r))
       (breakdown_rows trunc d projectID (breakdown_interval interval) groupBy start end'))"

definition breakdown_total ::
  "(string \<Rightarrow> int \<Rightarrow> string) \<Rightarrow> DuckDB \<Rightarrow> string \<Rightarrow> string \<Rightarrow> string \<Rightarrow> int \<Rightarrow> int \<Rightarrow> string \<Rightarrow> int" where
  "breakdown_total trunc d projectID interval groupBy start end' name =
     sum_list (map snd (series_entries
       (breakdown_rows trunc d projectID (breakdown_interval interval) groupBy start end') name))"

definition breakdown_points ::
  "(string \<Rightarrow> int \<Rightarrow> string) \<Rightarrow> DuckDB \<Rightarrow> string \<Rightarrow> string \<Rightarrow> string \<Rightarrow> int \<Rightarrow> int \<Rightarrow> string
     \<Rightarrow> TrendPoint list" where
  "breakdown_points trunc d projectID interval groupBy start end' name =
     map (\<lambda>en. \<lparr>tp_Bucket = fst en, tp_Count = snd en\<rparr>)
       (series_entries
          (breakdown_rows trunc d projectID (breakdown_interval interval) groupBy start end') name)"

lemma QueryTrendsBreakdown_result:
  assumes "\<not> duck_failing d"
  shows "QueryTrendsBreakdown trunc iteration d p interval g start end' =
     Inr (map (\<lambda>name. \<lparr>ts_Name = name,
                        ts_Data = breakdown_points trunc d p interval g start end' name\<rparr>)
            (filter (\<lambda>name. name \<in> set (top_names iteration
                        (\<lambda>name. if name \<in> set (breakdown_names trunc d p interval g start end')
                                then Some (series_entries (breakdown_rows trunc d p
                                       (breakdown_interval interval) g start end') name)
                                else None)))
               (breakdown_names trunc d p interval g start end')))"
  using assms
  by (simp add: QueryTrendsBreakdown_def scan_rows_empty breakdown_names_def
      breakdown_points_def Let_def)

lemma series_total_rows:
  "series_total (\<lambda>name. if name \<in> set (breakdown_names trunc d p interval g start end')
                                then Some (series_entries (breakdown_rows trunc d p
                                       (breakdown_interval interval) g start end') name)
                                else None) name
     = breakdown_total trunc d p interval g start end' name"
proof (cases "name \<in> set (breakdown_names trunc d p interval g start end')")
  case True
  then show ?thesis by (simp add: series_total_def breakdown_total_def)
next
  case False
  then have "series_entries (breakdown_rows trunc d p (breakdown_interval interval) g start end')
      name = []"
    by (auto simp: breakdown_names_def series_entries_def filter_empty_conv image_iff)
  with False show ?thesis by (simp add: series_total_def breakdown_total_def)
qed


lemma breakdown_points_sorted:
  "sorted_wrt (<) (map tp_Bucket (breakdown_points trunc d p interval g start end' name))"
proof -
  define rows where "rows = breakdown_rows trunc d p (breakdown_interval interval) g start end'"
  have k: "sorted (map (\<lambda>r. (fst r, fst (snd r))) rows)"
    "distinct (map (\<lambda>r. (fst r, fst (snd r))) rows)"
    unfolding rows_def using breakdown_rows_keys by blast+
  have "map tp_Bucket (breakdown_points trunc d p interval g start end' name)
      = map fst (series_entries rows name)"
    by (simp add: breakdown_points_def rows_def comp_def)
  then show ?thesis
    using series_entries_sorted [OF k] by simp
qed

text \<open>
  Claim C9. When the database answers, \<^verbatim>\<open>QueryTrendsBreakdown\<close> returns at most 8
  series: all of them when there are at most 8, and otherwise 8 series whose totals over
  the range are not less than the total of any series left out, whatever order Go's map
  iteration and \<^verbatim>\<open>sort.Slice\<close> take. The series returned stand in the order in which the
  rows of the query first show them, and the points of every series are in strictly
  increasing order of bucket.
\<close>

theorem trends_breakdown_top_series:
  assumes "\<not> duck_failing d" "distinct iteration"
    "set iteration = set (breakdown_names trunc d p interval g start end')"
  shows "\<exists>names.
      QueryTrendsBreakdown trunc iteration d p interval g start end' =
        Inr (map (\<lambda>name. \<lparr>ts_Name = name,
                           ts_Data = breakdown_points trunc d p interval g start end' name\<rparr>) names)
    \<and> length names = min 8 (length (breakdown_names trunc d p interval g start end'))
    \<and> names = filter (\<lambda>n. n \<in> set names) (breakdown_names trunc d p interval g start end')
    \<and> (\<forall>a\<in>set names. \<forall>b\<in>set (breakdown_names trunc d p interval g start end') - set names.
          breakdown_total trunc d p interval g start end' b
            \<le> breakdown_total trunc d p interval g start end' a)
    \<and> (\<forall>n. sorted_wrt (<) (map tp_Bucket (breakdown_points trunc d p interval g start end' n)))"
proof -
  define N where "N = breakdown_names trunc d p interval g start end'"
  define data where "data = (\<lambda>name. if name \<in> set N
      then Some (series_entries (breakdown_rows trunc d p (breakdown_interval interval) g start end') name)
      else None)"
  define top where "top = top_names iteration data"
  define names where "names = filter (\<lambda>name. name \<in> set top) N"
  have tot: "series_total data name = breakdown_total trunc d p interval g start end' name" for name
    unfolding data_def N_def by (rule series_total_rows)
  have it: "set iteration = set N" using assms(3) by (simp add: N_def)
  have t1: "distinct top"
    unfolding top_def using assms(2) by (rule top_names_props(1))
  have t2: "set top \<subseteq> set iteration"
    unfolding top_def using assms(2) by (rule top_names_props(2))
  have t3: "length top = min 8 (length iteration)"
    unfolding top_def using assms(2) by (rule top_names_props(3))
  have t4: "\<forall>a\<in>set top. \<forall>b\<in>set iteration - set top. series_total data b \<le> series_total data a"
    unfolding top_def using assms(2) by (rule top_names_props(4))
  have dN: "distinct N" by (simp add: N_def breakdown_names_def)
  have sn: "set names = set top" using t2 it by (auto simp: names_def)
  have "card (set iteration) = length iteration" using assms(2) by (rule distinct_card)
  moreover have "card (set N) = length N" using dN by (rule distinct_card)
  ultimately have li: "length iteration = length N" using it by simp
  have "distinct names" using dN by (simp add: names_def)
  then have "length names = card (set top)" using sn distinct_card [of names] by simp
  also have "\<dots> = length top" using t1 by (rule distinct_card)
  finally have 2: "length names = min 8 (length N)" using t3 li by simp
  have 1: "QueryTrendsBreakdown trunc iteration d p interval g start end' =
        Inr (map (\<lambda>name. \<lparr>ts_Name = name,
                           ts_Data = breakdown_points trunc d p interval g start end' name\<rparr>) names)"
    unfolding names_def top_def data_def N_def using assms(1) by (rule QueryTrendsBreakdown_result)
  have 3: "names = filter (\<lambda>n. n \<in> set names) N" by (simp only: sn) (simp add: names_def)
  have 4: "\<forall>a\<in>set names. \<forall>b\<in>set N - set names.
          breakdown_total trunc d p interval g start end' b
            \<le> breakdown_total trunc d p interval g start end' a"
    using t4 by (simp add: sn it tot)
  have 5: "\<forall>n. sorted_wrt (<) (map tp_Bucket (breakdown_points trunc d p interval g start end' n))"
    by (intro allI breakdown_points_sorted)
  have "QueryTrendsBreakdown trunc iteration d p interval g start end' =
        Inr (map (\<lambda>name. \<lparr>ts_Name = name,
                           ts_Data = breakdown_points trunc d p interval g start end' name\<rparr>) names)
    \<and> length names = min 8 (length N)
    \<and> names = filter (\<lambda>n. n \<in> set names) N
    \<and> (\<forall>a\<in>set names. \<forall>b\<in>set N - set names.
          breakdown_total trunc d p interval g start end' b
            \<le> breakdown_total trunc d p interval g start end' a)
    \<and> (\<forall>n. sorted_wrt (<) (map tp_Bucket (breakdown_points trunc d p interval g start end' n)))"
    using 1 2 3 4 5 by (intro conjI)
  then show ?thesis unfolding N_def by (rule exI [of _ names])
qed


definition example_trunc :: "string \<Rightarrow> int \<Rightarrow> string" where
  "example_trunc interval ts = (if ts < 100 then ''d1'' else ''d2'')"

definition trend_store :: DuckDB where
  "trend_store =
     \<lparr>events =
        [example_row ''A'' ''pageview'' None ''/'' 10,
         example_row ''A'' ''click'' None ''/'' 20,
         example_row ''B'' ''click'' None ''/'' 5,
         example_row ''B'' ''pageview'' None ''/'' 110],
      duck_failing = False\<rparr>"

lemma trend_rows:
  "breakdown_rows example_trunc trend_store ''p1'' ''day'' ''event_type'' 0 200
     = [(''d1'', ''click'', 2), (''d1'', ''pageview'', 1), (''d2'', ''pageview'', 1)]"
  by (simp add: breakdown_rows_def trend_store_def example_row_def example_trunc_def
      series_expr_def Let_def less_eq_prod_def less_eq_char_def less_char_def)


lemma trend_names:
  "breakdown_names example_trunc trend_store ''p1'' ''day'' ''event_type'' 0 200
     = [''click'', ''pageview'']"
  by (simp add: breakdown_names_def breakdown_interval_def trend_rows)

lemma trend_points:
  "breakdown_points example_trunc trend_store ''p1'' ''day'' ''event_type'' 0 200 ''click''
     = [\<lparr>tp_Bucket = ''d1'', tp_Count = 2\<rparr>]"
  "breakdown_points example_trunc trend_store ''p1'' ''day'' ''event_type'' 0 200 ''pageview''
     = [\<lparr>tp_Bucket = ''d1'', tp_Count = 1\<rparr>, \<lparr>tp_Bucket = ''d2'', tp_Count = 1\<rparr>]"
  by (simp_all add: breakdown_points_def breakdown_interval_def trend_rows series_entries_def)

theorem trends_breakdown_top_series_witness:
  "\<not> duck_failing trend_store
   \<and> distinct [''pageview'', ''click'']
   \<and> set [''pageview'', ''click'']
       = set (breakdown_names example_trunc trend_store ''p1'' ''day'' ''event_type'' 0 200)
   \<and> QueryTrendsBreakdown example_trunc [''pageview'', ''click''] trend_store ''p1'' ''day''
         ''event_type'' 0 200
       = Inr [\<lparr>ts_Name = ''click'', ts_Data = [\<lparr>tp_Bucket = ''d1'', tp_Count = 2\<rparr>]\<rparr>,
              \<lparr>ts_Name = ''pageview'',
               ts_Data = [\<lparr>tp_Bucket = ''d1'', tp_Count = 1\<rparr>, \<lparr>tp_Bucket = ''d2'', tp_Count = 1\<rparr>]\<rparr>]"
proof -
  have nf: "\<not> duck_failing trend_store" by (simp add: trend_store_def)
  have di: "distinct [''pageview'', ''click'']" by simp
  have st: "set [''pageview'', ''click'']
       = set (breakdown_names example_trunc trend_store ''p1'' ''day'' ''event_type'' 0 200)"
    by (auto simp: trend_names)
  obtain names where
    q: "QueryTrendsBreakdown example_trunc [''pageview'', ''click''] trend_store ''p1'' ''day''
         ''event_type'' 0 200
       = Inr (map (\<lambda>name. \<lparr>ts_Name = name,
                ts_Data = breakdown_points example_trunc trend_store ''p1'' ''day'' ''event_type''
                            0 200 name\<rparr>) names)"
    and l: "length names
       = min 8 (length (breakdown_names example_trunc trend_store ''p1'' ''day'' ''event_type'' 0 200))"
    and f: "names = filter (\<lambda>n. n \<in> set names)
              (breakdown_names example_trunc trend_store ''p1'' ''day'' ''event_type'' 0 200)"
    using trends_breakdown_top_series [OF nf di st] by blast
  have l2: "length names = 2" using l by (simp add: trend_names)
  have f2: "names = filter (\<lambda>n. n \<in> set names) [''click'', ''pageview'']"
    using f by (simp only: trend_names)
  have "names = [''click'', ''pageview'']"
  proof (cases "''click'' \<in> set names"; cases "''pageview'' \<in> set names")
    assume "''click'' \<in> set names" "''pageview'' \<in> set names"
    then show ?thesis using f2 by simp
  next
    assume a: "''click'' \<in> set names" "''pageview'' \<notin> set names"
    then have "names = [''click'']" using f2 by simp
    with l2 show ?thesis by simp
  next
    assume a: "''click'' \<notin> set names" "''pageview'' \<in> set names"
    then have "names = [''pageview'']" using f2 by simp
    with l2 show ?thesis by simp
  next
    assume a: "''click'' \<notin> set names" "''pageview'' \<notin> set names"
    then have "names = []" using f2 by simp
    with l2 show ?thesis by simp
  qed
  with q have "QueryTrendsBreakdown example_trunc [''pageview'', ''click''] trend_store ''p1'' ''day''
         ''event_type'' 0 200
       = Inr [\<lparr>ts_Name = ''click'', ts_Data = [\<lparr>tp_Bucket = ''d1'', tp_Count = 2\<rparr>]\<rparr>,
              \<lparr>ts_Name = ''pageview'',
               ts_Data = [\<lparr>tp_Bucket = ''d1'', tp_Count = 1\<rparr>, \<lparr>tp_Bucket = ''d2'', tp_Count = 1\<rparr>]\<rparr>]"
    by (simp add: trend_points)
  with nf di st show ?thesis by (intro conjI)
qed


section \<open>The alert checker (\<^verbatim>\<open>Server.checkAlerts\<close>)\<close>

text \<open>
  Go's \<^verbatim>\<open>int\<close> and \<^verbatim>\<open>int64\<close> have 64 bits, and \<^verbatim>\<open>time.Duration\<close> is an \<^verbatim>\<open>int64\<close> of
  nanoseconds: arithmetic on them wraps around. \<^verbatim>\<open>Time.Sub\<close>, which \<^verbatim>\<open>time.Since\<close>
  calls, saturates instead.
\<close>

definition wrap64 :: "int \<Rightarrow> int" where
  "wrap64 x = (x + 9223372036854775808) mod 18446744073709551616 - 9223372036854775808"

definition sat64 :: "int \<Rightarrow> int" where
  "sat64 x = max (- 9223372036854775808) (min 9223372036854775807 x)"

definition Minute :: int where
  "Minute = 60000000000"

text \<open>\<^verbatim>\<open>time.Duration(a.WindowMinutes) * time.Minute\<close>.\<close>

definition window_duration :: "int \<Rightarrow> int" where
  "window_duration windowMinutes = wrap64 (wrap64 windowMinutes * Minute)"

text \<open>\<^verbatim>\<open>-time.Duration(a.WindowMinutes) * time.Minute\<close>: the negation binds first.\<close>

definition neg_window_duration :: "int \<Rightarrow> int" where
  "neg_window_duration windowMinutes = wrap64 (wrap64 (- wrap64 windowMinutes) * Minute)"

record Alert =
  a_ID :: string
  a_ProjectID :: string
  a_Name :: string
  a_Metric :: string
  a_EventName :: string
  a_Threshold :: int
  a_WindowMinutes :: int
  a_WebhookURL :: string
  a_Enabled :: bool
  a_LastTriggeredAt :: "int option"
  a_CreatedAt :: int

text \<open>
  The table \<^verbatim>\<open>alerts\<close> of the metadata store, whose primary key is \<^verbatim>\<open>id\<close>;
  \<open>alerts_failing\<close> stands for the database not answering the query that lists them.
\<close>

record AlertStore =
  alerts :: "Alert list"
  alerts_failing :: bool

text \<open>
  \<^verbatim>\<open>SELECT ... FROM alerts WHERE enabled = 1 ORDER BY created_at DESC\<close>.
\<close>

definition ListAllEnabledAlerts :: "AlertStore \<Rightarrow> sql_error + Alert list" where
  "ListAllEnabledAlerts s =
     (if alerts_failing s then Inl ErrDriver
      else Inr (rev (sort_key a_CreatedAt (filter a_Enabled (alerts s)))))"

text \<open>
  \<^verbatim>\<open>UPDATE alerts SET last_triggered_at = ? WHERE id = ?\<close>; when the statement fails
  the checker logs the error and the table is unchanged.
\<close>

definition UpdateAlertTriggered :: "AlertStore \<Rightarrow> bool \<Rightarrow> string \<Rightarrow> int \<Rightarrow> AlertStore" where
  "UpdateAlertTriggered s fails alertID t =
     (if fails then s
      else s\<lparr>alerts := map (\<lambda>a. if a_ID a = alertID then a\<lparr>a_LastTriggeredAt := Some t\<rparr> else a)
                           (alerts s)\<rparr>)"

definition CountEvents :: "DuckDB \<Rightarrow> string \<Rightarrow> string \<Rightarrow> string \<Rightarrow> int \<Rightarrow> sql_error + int" where
  "CountEvents d projectID eventType eventName since =
     (if duck_failing d then Inl ErrDriver
      else Inr (int (length (filter
             (\<lambda>e. ev_ProjectID e = projectID
                  \<and> (eventType = [] \<or> ev_EventType e = eventType)
                  \<and> (eventName = [] \<or> ev_EventName e = Some eventName)
                  \<and> (IsZero since \<or> since \<le> ev_Timestamp e))
             (events d)))))"

text \<open>
  What the checker meets while it handles one alert: the clock at its three readings
  (for the start of the window, for the cooldown and for the update), whether the
  webhook answers, and whether the update of \<^verbatim>\<open>last_triggered_at\<close> fails.
\<close>

record alert_env =
  t_since :: int
  t_cooldown :: int
  t_update :: int
  delivery_ok :: bool
  update_fails :: bool

text \<open>The JSON body of the webhook request, and a request that was sent.\<close>

record WebhookPayload =
  wp_alert :: string
  wp_metric :: string
  wp_count :: int
  wp_threshold :: int
  wp_project_id :: string

datatype alert_result =
  CountFailed
  | NotAboveThreshold
  | CoolingDown
  | Fired "(string \<times> WebhookPayload) list" int

text \<open>
  The body of the loop of \<^verbatim>\<open>checkAlerts\<close> up to the update: the result says why
  the alert was skipped, or holds the POST requests that were attempted (none when
  \<^verbatim>\<open>http.NewRequestWithContext\<close> refuses the URL, which it parses with
  \<^verbatim>\<open>url.Parse\<close>) and the time for \<^verbatim>\<open>last_triggered_at\<close>.
\<close>

definition check_alert :: "golib \<Rightarrow> DuckDB \<Rightarrow> alert_env \<Rightarrow> Alert \<Rightarrow> alert_result" where
  "check_alert L d env a =
     (let since = t_since env + neg_window_duration (a_WindowMinutes a);
          eventType = (if a_Metric a = ''error_count'' then ''error''
                       else if a_Metric a = ''pageview_count'' then ''pageview'' else []);
          eventName = (if a_Metric a = ''event_count'' then a_EventName a else [])
      in case CountEvents d (a_ProjectID a) eventType eventName since of
           Inl err \<Rightarrow> CountFailed
         | Inr cnt \<Rightarrow>
             if cnt \<le> a_Threshold a then NotAboveThreshold
             else if a_LastTriggeredAt a \<noteq> None
                     \<and> sat64 (t_cooldown env - the (a_LastTriggeredAt a))
                           < window_duration (a_WindowMinutes a)
               then CoolingDown
             else Fired
                    (if url_Parse_Path L (a_WebhookURL a) = None then []
                     else [(a_WebhookURL a,
                            \<lparr>wp_alert = a_Name a, wp_metric = a_Metric a, wp_count = cnt,
                             wp_threshold = a_Threshold a, wp_project_id = a_ProjectID a\<rparr>)])
                    (t_update env))"

text \<open>
  The loop over the alerts that were listed; \<open>env i\<close> is what the checker meets at the
  alert of index \<open>i\<close>. It returns the requests sent and the table.
\<close>

fun check_loop ::
  "golib \<Rightarrow> DuckDB \<Rightarrow> (nat \<Rightarrow> alert_env) \<Rightarrow> nat \<Rightarrow> Alert list \<Rightarrow> AlertStore
     \<Rightarrow> (string \<times> WebhookPayload) list \<times> AlertStore" where
  "check_loop L d env i [] s = ([], s)"
| "check_loop L d env i (a # as) s =
     (case check_alert L d (env i) a of
        Fired posts now \<Rightarrow>
          (case check_loop L d env (Suc i) as
                  (UpdateAlertTriggered s (update_fails (env i)) (a_ID a) now) of
             (ps, s') \<Rightarrow> (posts @ ps, s'))
      | _ \<Rightarrow> check_loop L d env (Suc i) as s)"

definition checkAlerts ::
  "golib \<Rightarrow> DuckDB \<Rightarrow> (nat \<Rightarrow> alert_env) \<Rightarrow> AlertStore
     \<Rightarrow> (string \<times> WebhookPayload) list \<times> AlertStore" where
  "checkAlerts L d env s =
     (case ListAllEnabledAlerts s of
        Inl err \<Rightarrow> ([], s)
      | Inr as \<Rightarrow> check_loop L d env 0 as s)"


text \<open>
  An alert with a window of 307445735 minutes, for which
  \<^verbatim>\<open>time.Duration(a.WindowMinutes) * time.Minute\<close> wraps around to 26.290448384 seconds.
\<close>

definition wide_alert :: Alert where
  "wide_alert =
     \<lparr>a_ID = ''a1'', a_ProjectID = ''p1'', a_Name = ''errors'', a_Metric = ''error_count'',
      a_EventName = [], a_Threshold = 0, a_WindowMinutes = 307445735,
      a_WebhookURL = ''http://hooks/x'', a_Enabled = True, a_LastTriggeredAt = None,
      a_CreatedAt = 0\<rparr>"

definition error_store :: DuckDB where
  "error_store =
     \<lparr>events =
        [example_row ''A'' ''error'' None ''/'' 990000000000,
         example_row ''B'' ''error'' None ''/'' 1290000000000],
      duck_failing = False\<rparr>"

definition tick :: "int \<Rightarrow> nat \<Rightarrow> alert_env" where
  "tick t i = \<lparr>t_since = t, t_cooldown = t, t_update = t, delivery_ok = True, update_fails = False\<rparr>"

lemma wide_window: "window_duration 307445735 = 26290448384"
  by (simp add: window_duration_def wrap64_def Minute_def)

lemma wide_window_neg: "neg_window_duration 307445735 = - 26290448384"
  by (simp add: neg_window_duration_def wrap64_def Minute_def)

lemma wide_first_run:
  "checkAlerts example_lib error_store (tick 1000000000000)
       \<lparr>alerts = [wide_alert], alerts_failing = False\<rparr>
     = ([(''http://hooks/x'',
          \<lparr>wp_alert = ''errors'', wp_metric = ''error_count'', wp_count = 2, wp_threshold = 0,
           wp_project_id = ''p1''\<rparr>)],
        \<lparr>alerts = [wide_alert\<lparr>a_LastTriggeredAt := Some 1000000000000\<rparr>], alerts_failing = False\<rparr>)"
  by (simp add: checkAlerts_def ListAllEnabledAlerts_def check_alert_def CountEvents_def
      UpdateAlertTriggered_def wide_alert_def error_store_def example_row_def tick_def
      wide_window wide_window_neg example_lib_def IsZero_def zeroTime_def sat64_def Let_def)

lemma wide_second_run:
  "checkAlerts example_lib error_store (tick 1300000000000)
       \<lparr>alerts = [wide_alert\<lparr>a_LastTriggeredAt := Some 1000000000000\<rparr>], alerts_failing = False\<rparr>
     = ([(''http://hooks/x'',
          \<lparr>wp_alert = ''errors'', wp_metric = ''error_count'', wp_count = 1, wp_threshold = 0,
           wp_project_id = ''p1''\<rparr>)],
        \<lparr>alerts = [wide_alert\<lparr>a_LastTriggeredAt := Some 1300000000000\<rparr>], alerts_failing = False\<rparr>)"
  by (simp add: checkAlerts_def ListAllEnabledAlerts_def check_alert_def CountEvents_def
      UpdateAlertTriggered_def wide_alert_def error_store_def example_row_def tick_def
      wide_window wide_window_neg example_lib_def IsZero_def zeroTime_def sat64_def Let_def)


lemma wrap64_id: "- 9223372036854775808 \<le> x \<Longrightarrow> x < 9223372036854775808 \<Longrightarrow> wrap64 x = x"
  by (simp add: wrap64_def)

lemma window_in_range:
  assumes "0 < w" "w \<le> 153722867"
  shows "window_duration w = w * Minute" and "neg_window_duration w = - (w * Minute)"
proof -
  have w: "wrap64 w = w" using assms by (intro wrap64_id) simp_all
  have n: "wrap64 (- w) = - w" using assms by (intro wrap64_id) simp_all
  have "w * Minute \<le> 153722867 * Minute"
    using assms by (intro mult_right_mono) (simp_all add: Minute_def)
  then have b: "w * Minute < 9223372036854775808" by (simp add: Minute_def)
  have p: "0 < w * Minute" using assms by (simp add: Minute_def)
  show "window_duration w = w * Minute"
    unfolding window_duration_def w using b p by (intro wrap64_id) simp_all
  show "neg_window_duration w = - (w * Minute)"
    unfolding neg_window_duration_def w n using b p by (simp add: wrap64_id)
qed

text \<open>
  The filter of an alert's count query, and the conditions under which the
  specification lets an alert fire at the clock readings \<open>env\<close>: the count of the window
  that ends at the first reading exceeds the threshold, and no earlier firing lies less
  than the window before the second reading.
\<close>

definition alert_count :: "DuckDB \<Rightarrow> Alert \<Rightarrow> int \<Rightarrow> sql_error + int" where
  "alert_count d a since =
     CountEvents d (a_ProjectID a)
       (if a_Metric a = ''error_count'' then ''error''
        else if a_Metric a = ''pageview_count'' then ''pageview'' else [])
       (if a_Metric a = ''event_count'' then a_EventName a else [])
       since"

definition may_fire :: "DuckDB \<Rightarrow> alert_env \<Rightarrow> Alert \<Rightarrow> bool" where
  "may_fire d env a =
     ((\<exists>cnt. alert_count d a (t_since env - a_WindowMinutes a * Minute) = Inr cnt
             \<and> a_Threshold a < cnt)
      \<and> (case a_LastTriggeredAt a of
            None \<Rightarrow> True
          | Some before \<Rightarrow> before + a_WindowMinutes a * Minute \<le> t_cooldown env))"

lemma sat64_ge: "0 < w \<Longrightarrow> \<not> sat64 x < w \<Longrightarrow> w \<le> x"
  by (auto simp: sat64_def min_def max_def split: if_splits)

lemma check_alert_fired:
  assumes "check_alert L d env a = Fired posts now"
    "0 < a_WindowMinutes a" "a_WindowMinutes a \<le> 153722867"
  shows "may_fire d env a \<and> now = t_update env"
proof -
  note w = window_in_range [OF assms(2,3)]
  have p: "0 < a_WindowMinutes a * Minute" using assms(2) by (simp add: Minute_def)
  obtain cnt where c: "alert_count d a (t_since env - a_WindowMinutes a * Minute) = Inr cnt"
    and t: "\<not> cnt \<le> a_Threshold a"
    and l: "\<not> (a_LastTriggeredAt a \<noteq> None
              \<and> sat64 (t_cooldown env - the (a_LastTriggeredAt a)) < a_WindowMinutes a * Minute)"
    and n: "now = t_update env"
    using assms(1) unfolding check_alert_def alert_count_def Let_def w
    by (auto split: sum.splits if_splits)
  have "case a_LastTriggeredAt a of None \<Rightarrow> True
          | Some before \<Rightarrow> before + a_WindowMinutes a * Minute \<le> t_cooldown env"
  proof (cases "a_LastTriggeredAt a")
    case None
    then show ?thesis by simp
  next
    case (Some before)
    with l have "\<not> sat64 (t_cooldown env - before) < a_WindowMinutes a * Minute" by simp
    from sat64_ge [OF p this] Some show ?thesis by simp
  qed
  with c t n show ?thesis by (auto simp: may_fire_def)
qed


text \<open>
  How one run of the loop can change a row \<open>r\<close> of the table into \<open>r'\<close>: not at all, or
  by the update that follows the firing of a listed alert with the row's id.
\<close>

definition row_step ::
  "golib \<Rightarrow> DuckDB \<Rightarrow> (nat \<Rightarrow> alert_env) \<Rightarrow> nat \<Rightarrow> Alert list \<Rightarrow> Alert \<Rightarrow> Alert \<Rightarrow> bool" where
  "row_step L d env i as r r' =
     (r' = r
      \<or> (\<exists>j<length as. \<exists>ps t. a_ID (as ! j) = a_ID r
             \<and> check_alert L d (env (i + j)) (as ! j) = Fired ps t
             \<and> r' = r\<lparr>a_LastTriggeredAt := Some t\<rparr>))"

lemma row_step_Cons: "row_step L d env (Suc i) as r r' \<Longrightarrow> row_step L d env i (a # as) r r'"
  unfolding row_step_def
proof (elim disjE exE conjE)
  assume "r' = r"
  then show "r' = r \<or> (\<exists>j<length (a # as). \<exists>ps t. a_ID ((a # as) ! j) = a_ID r
             \<and> check_alert L d (env (i + j)) ((a # as) ! j) = Fired ps t
             \<and> r' = r\<lparr>a_LastTriggeredAt := Some t\<rparr>)" by simp
next
  fix j ps t
  assume "j < length as" "a_ID (as ! j) = a_ID r"
    "check_alert L d (env (Suc i + j)) (as ! j) = Fired ps t"
    "r' = r\<lparr>a_LastTriggeredAt := Some t\<rparr>"
  then have "Suc j < length (a # as) \<and> a_ID ((a # as) ! Suc j) = a_ID r
      \<and> check_alert L d (env (i + Suc j)) ((a # as) ! Suc j) = Fired ps t
      \<and> r' = r\<lparr>a_LastTriggeredAt := Some t\<rparr>" by simp
  then show "r' = r \<or> (\<exists>j<length (a # as). \<exists>ps t. a_ID ((a # as) ! j) = a_ID r
             \<and> check_alert L d (env (i + j)) ((a # as) ! j) = Fired ps t
             \<and> r' = r\<lparr>a_LastTriggeredAt := Some t\<rparr>)" by blast
qed

lemma update_rows:
  assumes "check_alert L d (env i) a = Fired ps now"
  shows "list_all2 (row_step L d env i [a]) (alerts s)
           (alerts (UpdateAlertTriggered s fails (a_ID a) now))"
proof -
  have "row_step L d env i [a] r (if a_ID r = a_ID a then r\<lparr>a_LastTriggeredAt := Some now\<rparr> else r)"
    for r
    using assms by (auto simp: row_step_def)
  moreover have "row_step L d env i [a] r r" for r by (simp add: row_step_def)
  ultimately show ?thesis
    by (simp add: UpdateAlertTriggered_def list_all2_conv_all_nth)
qed

lemma row_step_compose:
  assumes "row_step L d env i [a] r r1" "row_step L d env (Suc i) as r1 r'"
  shows "row_step L d env i (a # as) r r'"
proof -
  from assms(1) consider "r1 = r"
    | ps t where "a_ID a = a_ID r" "check_alert L d (env i) a = Fired ps t"
        "r1 = r\<lparr>a_LastTriggeredAt := Some t\<rparr>"
    by (auto simp: row_step_def)
  then show ?thesis
  proof cases
    case 1
    with assms(2) show ?thesis by (simp add: row_step_Cons)
  next
    case 2
    from assms(2) consider "r' = r1"
      | j ps' t' where "j < length as" "a_ID (as ! j) = a_ID r1"
          "check_alert L d (env (Suc i + j)) (as ! j) = Fired ps' t'"
          "r' = r1\<lparr>a_LastTriggeredAt := Some t'\<rparr>"
      by (auto simp: row_step_def)
    then show ?thesis
    proof cases
      case 1
      have "0 < length (a # as) \<and> a_ID ((a # as) ! 0) = a_ID r
          \<and> check_alert L d (env (i + 0)) ((a # as) ! 0) = Fired ps t
          \<and> r' = r\<lparr>a_LastTriggeredAt := Some t\<rparr>"
        using 1 2 by simp
      then show ?thesis unfolding row_step_def by blast
    next
      case b: 2
      have "Suc j < length (a # as) \<and> a_ID ((a # as) ! Suc j) = a_ID r
          \<and> check_alert L d (env (i + Suc j)) ((a # as) ! Suc j) = Fired ps' t'
          \<and> r' = r\<lparr>a_LastTriggeredAt := Some t'\<rparr>"
        using b 2 by simp
      then show ?thesis unfolding row_step_def by blast
    qed
  qed
qed

lemma check_loop_rows:
  "check_loop L d env i as s = (posts, s') \<Longrightarrow>
     list_all2 (row_step L d env i as) (alerts s) (alerts s')"
proof (induction as arbitrary: i s posts s')
  case Nil
  then show ?case by (simp add: row_step_def list_all2_conv_all_nth)
next
  case (Cons a as)
  show ?case
  proof (cases "check_alert L d (env i) a")
    case (Fired ps now)
    let ?s1 = "UpdateAlertTriggered s (update_fails (env i)) (a_ID a) now"
    obtain ps' where "check_loop L d env (Suc i) as ?s1 = (ps', s')"
      using Cons.prems Fired by (auto split: prod.splits)
    then have 2: "list_all2 (row_step L d env (Suc i) as) (alerts ?s1) (alerts s')"
      by (rule Cons.IH)
    have 1: "list_all2 (row_step L d env i [a]) (alerts s) (alerts ?s1)"
      using Fired by (rule update_rows)
    show ?thesis
      using row_step_compose 1 2 by (rule list_all2_trans)
  next
    case CountFailed
    with Cons.prems have "check_loop L d env (Suc i) as s = (posts, s')" by simp
    from Cons.IH [OF this] show ?thesis
      by (rule list_all2_mono) (rule row_step_Cons)
  next
    case NotAboveThreshold
    with Cons.prems have "check_loop L d env (Suc i) as s = (posts, s')" by simp
    from Cons.IH [OF this] show ?thesis
      by (rule list_all2_mono) (rule row_step_Cons)
  next
    case CoolingDown
    with Cons.prems have "check_loop L d env (Suc i) as s = (posts, s')" by simp
    from Cons.IH [OF this] show ?thesis
      by (rule list_all2_mono) (rule row_step_Cons)
  qed
qed


lemma check_loop_posts:
  "check_loop L d env i as s = (posts, s') \<Longrightarrow>
     \<forall>x\<in>set posts. \<exists>j<length as. \<exists>ps t.
        check_alert L d (env (i + j)) (as ! j) = Fired ps t \<and> x \<in> set ps"
proof (induction as arbitrary: i s posts s')
  case Nil
  then show ?case by simp
next
  case (Cons a as)
  have lift: "\<exists>j<length (a # as). \<exists>ps t.
        check_alert L d (env (i + j)) ((a # as) ! j) = Fired ps t \<and> x \<in> set ps"
    if "\<exists>j<length as. \<exists>ps t. check_alert L d (env (Suc i + j)) (as ! j) = Fired ps t \<and> x \<in> set ps"
    for x
  proof -
    from that obtain j ps t where "j < length as"
      "check_alert L d (env (Suc i + j)) (as ! j) = Fired ps t" "x \<in> set ps" by blast
    then have "Suc j < length (a # as) \<and>
        check_alert L d (env (i + Suc j)) ((a # as) ! Suc j) = Fired ps t \<and> x \<in> set ps" by simp
    then show ?thesis by blast
  qed
  show ?case
  proof (cases "check_alert L d (env i) a")
    case (Fired ps now)
    let ?s1 = "UpdateAlertTriggered s (update_fails (env i)) (a_ID a) now"
    obtain ps' where r: "check_loop L d env (Suc i) as ?s1 = (ps', s')" and p: "posts = ps @ ps'"
      using Cons.prems Fired by (auto split: prod.splits)
    have here: "0 < length (a # as) \<and> check_alert L d (env (i + 0)) ((a # as) ! 0) = Fired ps now"
      using Fired by simp
    show ?thesis
    proof
      fix x assume "x \<in> set posts"
      then consider "x \<in> set ps" | "x \<in> set ps'" using p by auto
      then show "\<exists>j<length (a # as). \<exists>ps t.
        check_alert L d (env (i + j)) ((a # as) ! j) = Fired ps t \<and> x \<in> set ps"
      proof cases
        case 1
        with here show ?thesis by blast
      next
        case 2
        with Cons.IH [OF r] show ?thesis by (intro lift) blast
      qed
    qed
  next
    case CountFailed
    with Cons.prems have "check_loop L d env (Suc i) as s = (posts, s')" by simp
    from Cons.IH [OF this] show ?thesis using lift by blast
  next
    case NotAboveThreshold
    with Cons.prems have "check_loop L d env (Suc i) as s = (posts, s')" by simp
    from Cons.IH [OF this] show ?thesis using lift by blast
  next
    case CoolingDown
    with Cons.prems have "check_loop L d env (Suc i) as s = (posts, s')" by simp
    from Cons.IH [OF this] show ?thesis using lift by blast
  qed
qed

text \<open>
  A row after a run of the checker, against the specification: it is unchanged, or the
  alert is enabled, it met the conditions for firing at some alert's clock readings, and
  its \<^verbatim>\<open>last_triggered_at\<close> is the reading taken for the update, at least one window
  after the previous one.
\<close>

definition fired_within_contract :: "DuckDB \<Rightarrow> (nat \<Rightarrow> alert_env) \<Rightarrow> Alert \<Rightarrow> Alert \<Rightarrow> bool" where
  "fired_within_contract d env r r' =
     (r' = r
      \<or> (a_Enabled r
          \<and> (\<exists>i. may_fire d (env i) r
                 \<and> r' = r\<lparr>a_LastTriggeredAt := Some (t_update (env i))\<rparr>
                 \<and> (case a_LastTriggeredAt r of
                       None \<Rightarrow> True
                     | Some before \<Rightarrow> before + a_WindowMinutes r * Minute \<le> t_update (env i)))))"

lemma listed_alerts:
  "ListAllEnabledAlerts s = Inr as \<Longrightarrow> set as = {a \<in> set (alerts s). a_Enabled a}"
  by (auto simp: ListAllEnabledAlerts_def split: if_splits)

lemma same_id_same_row:
  assumes "distinct (map a_ID rows)" "x \<in> set rows" "y \<in> set rows" "a_ID x = a_ID y"
  shows "x = y"
  using assms by (meson distinct_map inj_onD)

lemma row_step_contract:
  assumes "row_step L d env 0 as r r'" "r \<in> set rows" "distinct (map a_ID rows)"
    "set as = {a \<in> set rows. a_Enabled a}"
    "\<forall>a\<in>set rows. 0 < a_WindowMinutes a \<and> a_WindowMinutes a \<le> 153722867"
    "\<forall>i. t_cooldown (env i) \<le> t_update (env i)"
  shows "fired_within_contract d env r r'"
proof -
  from assms(1) consider "r' = r"
    | j ps t where "j < length as" "a_ID (as ! j) = a_ID r"
        "check_alert L d (env j) (as ! j) = Fired ps t" "r' = r\<lparr>a_LastTriggeredAt := Some t\<rparr>"
    by (auto simp: row_step_def)
  then show ?thesis
  proof cases
    case 1
    then show ?thesis by (simp add: fired_within_contract_def)
  next
    case 2
    have m: "as ! j \<in> set as" using 2(1) by simp
    then have "as ! j \<in> set rows" "a_Enabled (as ! j)" using assms(4) by auto
    with same_id_same_row [OF assms(3) _ assms(2) 2(2)] have e: "as ! j = r" "a_Enabled r" by auto
    have rng: "0 < a_WindowMinutes r" "a_WindowMinutes r \<le> 153722867"
      using assms(2,5) by auto
    from check_alert_fired [OF 2(3) [unfolded e(1)] rng]
    have mf: "may_fire d (env j) r" and t: "t = t_update (env j)" by auto
    have "case a_LastTriggeredAt r of None \<Rightarrow> True
        | Some before \<Rightarrow> before + a_WindowMinutes r * Minute \<le> t_update (env j)"
      using mf assms(6) [rule_format, of j]
      by (auto simp: may_fire_def split: option.splits)
    with mf t 2(4) e(2) show ?thesis
      unfolding fired_within_contract_def by blast
  qed
qed


lemma check_alert_posts:
  assumes "check_alert L d env a = Fired ps t" "x \<in> set ps"
  shows "fst x = a_WebhookURL a \<and> wp_alert (snd x) = a_Name a"
  using assms unfolding check_alert_def Let_def
  by (auto split: sum.splits if_splits)

text \<open>
  For alerts whose window is at most 153722867 minutes, the greatest whose length in
  nanoseconds fits 64 bits, and a clock that does not run backwards between the cooldown
  check and the update, a run of the checker changes a row only by firing an enabled
  alert whose count exceeds its threshold and whose previous firing lies at least one
  window back, and every request it sends is the webhook of such an alert.
\<close>

theorem alerts_respect_cooldown_in_range:
  assumes "checkAlerts L d env s = (posts, s')" "distinct (map a_ID (alerts s))"
    "\<forall>a\<in>set (alerts s). 0 < a_WindowMinutes a \<and> a_WindowMinutes a \<le> 153722867"
    "\<forall>i. t_cooldown (env i) \<le> t_update (env i)"
  shows "list_all2 (fired_within_contract d env) (alerts s) (alerts s')
    \<and> (\<forall>x\<in>set posts. \<exists>a\<in>set (alerts s). \<exists>i. a_Enabled a \<and> may_fire d (env i) a
           \<and> fst x = a_WebhookURL a \<and> wp_alert (snd x) = a_Name a)"
proof (cases "ListAllEnabledAlerts s")
  case (Inl err)
  with assms(1) have "s' = s" "posts = []" by (simp_all add: checkAlerts_def)
  then show ?thesis
    by (simp add: list_all2_conv_all_nth fired_within_contract_def)
next
  case (Inr as)
  with assms(1) have run: "check_loop L d env 0 as s = (posts, s')"
    by (simp add: checkAlerts_def)
  have sa: "set as = {a \<in> set (alerts s). a_Enabled a}"
    using Inr by (rule listed_alerts)
  have rows: "list_all2 (row_step L d env 0 as) (alerts s) (alerts s')"
    using run by (rule check_loop_rows)
  have 1: "list_all2 (fired_within_contract d env) (alerts s) (alerts s')"
    unfolding list_all2_conv_all_nth
  proof (intro conjI allI impI)
    show "length (alerts s) = length (alerts s')"
      using rows by (rule list_all2_lengthD)
    fix k assume k: "k < length (alerts s)"
    have "row_step L d env 0 as (alerts s ! k) (alerts s' ! k)"
      using rows k by (simp add: list_all2_conv_all_nth)
    moreover have "alerts s ! k \<in> set (alerts s)" using k by simp
    ultimately show "fired_within_contract d env (alerts s ! k) (alerts s' ! k)"
      using assms(2) sa assms(3,4) by (rule row_step_contract)
  qed
  have 2: "\<forall>x\<in>set posts. \<exists>a\<in>set (alerts s). \<exists>i. a_Enabled a \<and> may_fire d (env i) a
           \<and> fst x = a_WebhookURL a \<and> wp_alert (snd x) = a_Name a"
  proof
    fix x assume "x \<in> set posts"
    with check_loop_posts [OF run] obtain j ps t where j: "j < length as"
      and f: "check_alert L d (env (0 + j)) (as ! j) = Fired ps t" and x: "x \<in> set ps"
      by blast
    have m: "as ! j \<in> set (alerts s)" "a_Enabled (as ! j)"
      using j sa nth_mem [of j as] by auto
    have rng: "0 < a_WindowMinutes (as ! j)" "a_WindowMinutes (as ! j) \<le> 153722867"
      using m(1) assms(3) by auto
    from check_alert_fired [OF f rng] have "may_fire d (env (0 + j)) (as ! j)" by simp
    with m check_alert_posts [OF f x]
    show "\<exists>a\<in>set (alerts s). \<exists>i. a_Enabled a \<and> may_fire d (env i) a
           \<and> fst x = a_WebhookURL a \<and> wp_alert (snd x) = a_Name a"
      by blast
  qed
  from 1 2 show ?thesis by (rule conjI)
qed


definition hourly_alert :: Alert where
  "hourly_alert = wide_alert\<lparr>a_WindowMinutes := 60\<rparr>"

lemma hourly_window: "window_duration 60 = 3600000000000" "neg_window_duration 60 = - 3600000000000"
  by (simp_all add: window_duration_def neg_window_duration_def wrap64_def Minute_def)

lemma hourly_first_run:
  "checkAlerts example_lib error_store (tick 1000000000000)
       \<lparr>alerts = [hourly_alert], alerts_failing = False\<rparr>
     = ([(''http://hooks/x'',
          \<lparr>wp_alert = ''errors'', wp_metric = ''error_count'', wp_count = 2, wp_threshold = 0,
           wp_project_id = ''p1''\<rparr>)],
        \<lparr>alerts = [hourly_alert\<lparr>a_LastTriggeredAt := Some 1000000000000\<rparr>], alerts_failing = False\<rparr>)"
  by (simp add: checkAlerts_def ListAllEnabledAlerts_def check_alert_def CountEvents_def
      UpdateAlertTriggered_def wide_alert_def hourly_alert_def error_store_def example_row_def
      tick_def hourly_window example_lib_def IsZero_def zeroTime_def sat64_def Let_def)

lemma hourly_second_run:
  "checkAlerts example_lib error_store (tick 1300000000000)
       \<lparr>alerts = [hourly_alert\<lparr>a_LastTriggeredAt := Some 1000000000000\<rparr>], alerts_failing = False\<rparr>
     = ([], \<lparr>alerts = [hourly_alert\<lparr>a_LastTriggeredAt := Some 1000000000000\<rparr>],
              alerts_failing = False\<rparr>)"
  by (simp add: checkAlerts_def ListAllEnabledAlerts_def check_alert_def CountEvents_def
      UpdateAlertTriggered_def wide_alert_def hourly_alert_def error_store_def example_row_def
      tick_def hourly_window example_lib_def IsZero_def zeroTime_def sat64_def Let_def)

theorem alerts_respect_cooldown_in_range_witness:
  "checkAlerts example_lib error_store (tick 1000000000000)
       \<lparr>alerts = [hourly_alert], alerts_failing = False\<rparr>
     = ([(''http://hooks/x'',
          \<lparr>wp_alert = ''errors'', wp_metric = ''error_count'', wp_count = 2, wp_threshold = 0,
           wp_project_id = ''p1''\<rparr>)],
        \<lparr>alerts = [hourly_alert\<lparr>a_LastTriggeredAt := Some 1000000000000\<rparr>], alerts_failing = False\<rparr>)
   \<and> fired_within_contract error_store (tick 1000000000000) hourly_alert
        (hourly_alert\<lparr>a_LastTriggeredAt := Some 1000000000000\<rparr>)
   \<and> checkAlerts example_lib error_store (tick 1300000000000)
       \<lparr>alerts = [hourly_alert\<lparr>a_LastTriggeredAt := Some 1000000000000\<rparr>], alerts_failing = False\<rparr>
     = ([], \<lparr>alerts = [hourly_alert\<lparr>a_LastTriggeredAt := Some 1000000000000\<rparr>],
              alerts_failing = False\<rparr>)"
proof -
  have d: "distinct (map a_ID (alerts \<lparr>alerts = [hourly_alert], alerts_failing = False\<rparr>))"
    by simp
  have r: "\<forall>a\<in>set (alerts \<lparr>alerts = [hourly_alert], alerts_failing = False\<rparr>).
      0 < a_WindowMinutes a \<and> a_WindowMinutes a \<le> 153722867"
    by (simp add: hourly_alert_def)
  have c: "\<forall>i. t_cooldown (tick 1000000000000 i) \<le> t_update (tick 1000000000000 i)"
    by (simp add: tick_def)
  have "fired_within_contract error_store (tick 1000000000000) hourly_alert
        (hourly_alert\<lparr>a_LastTriggeredAt := Some 1000000000000\<rparr>)"
    using alerts_respect_cooldown_in_range [OF hourly_first_run d r c] by simp
  then show ?thesis using hourly_first_run hourly_second_run by (intro conjI)
qed

text \<open>
  Claim C4. The checker lists the enabled alerts only, skips an alert whose count is
  not above its threshold, and sets \<^verbatim>\<open>last_triggered_at\<close> whatever the webhook answers;
  but it does not keep two firings of an alert one window apart. It compares the time
  since the last firing with \<^verbatim>\<open>time.Duration(a.WindowMinutes) * time.Minute\<close>, a 64-bit
  product that wraps around for windows above 153722867 minutes: for the alert below,
  whose window is 307445735 minutes, the product is 26.290448384 seconds, so the alert
  fires at a tick and again at the tick five minutes later, and its two consecutive
  \<^verbatim>\<open>last_triggered_at\<close> values lie 300 seconds apart.
\<close>

theorem alert_cooldown_overflow:
  "checkAlerts example_lib error_store (tick 1000000000000)
       \<lparr>alerts = [wide_alert], alerts_failing = False\<rparr>
     = ([(''http://hooks/x'',
          \<lparr>wp_alert = ''errors'', wp_metric = ''error_count'', wp_count = 2, wp_threshold = 0,
           wp_project_id = ''p1''\<rparr>)],
        \<lparr>alerts = [wide_alert\<lparr>a_LastTriggeredAt := Some 1000000000000\<rparr>], alerts_failing = False\<rparr>)
   \<and> checkAlerts example_lib error_store (tick 1300000000000)
       \<lparr>alerts = [wide_alert\<lparr>a_LastTriggeredAt := Some 1000000000000\<rparr>], alerts_failing = False\<rparr>
     = ([(''http://hooks/x'',
          \<lparr>wp_alert = ''errors'', wp_metric = ''error_count'', wp_count = 1, wp_threshold = 0,
           wp_project_id = ''p1''\<rparr>)],
        \<lparr>alerts = [wide_alert\<lparr>a_LastTriggeredAt := Some 1300000000000\<rparr>], alerts_failing = False\<rparr>)
   \<and> a_Enabled wide_alert
   \<and> window_duration (a_WindowMinutes wide_alert) = 26290448384
   \<and> 1300000000000 - 1000000000000 < a_WindowMinutes wide_alert * Minute"
  using wide_first_run wide_second_run wide_window
  by (simp add: wide_alert_def Minute_def)

end
